theory Spec2Isabelle
  imports Main "HOL-Library.AList"
begin

section \<open>Data model of index.js\<close>

text \<open>
  The program is the one file \<^verbatim>\<open>index.js\<close>, in its current version: the one that prunes the
  ledger (\<^verbatim>\<open>cleanupOldNotified\<close>) and sends a desktop notification. What follows models one
  run of its \<^verbatim>\<open>main\<close>, with or without \<^verbatim>\<open>--dry-run\<close>.
\<close>

text \<open>
  The settings object that \<^verbatim>\<open>loadConfig\<close> returns. The two counts are JavaScript numbers
  read from \<^verbatim>\<open>config.json\<close> with no range check, so they are integers of either sign.
\<close>

record config =
  maxTabsToOpen :: int
  paused :: bool
  excludeDraft :: bool
  notifiedRetentionDays :: int
  enableNotification :: bool

text \<open>
  What \<^verbatim>\<open>JSON.parse\<close> finds in \<^verbatim>\<open>config.json\<close>: every key may be missing.
\<close>

record config_json =
  maxTabsToOpen_opt :: "int option"
  paused_opt :: "bool option"
  excludeDraft_opt :: "bool option"
  notifiedRetentionDays_opt :: "int option"
  enableNotification_opt :: "bool option"

text \<open>
  A value of the ledger object \<^verbatim>\<open>notified\<close>. New entries are written as
  \<^verbatim>\<open>{ at, title }\<close>; older files carry \<^verbatim>\<open>notifiedAt\<close> instead of \<^verbatim>\<open>at\<close>. A field that
  the object does not have reads as \<^verbatim>\<open>undefined\<close>, here \<open>None\<close>. The timestamps are strings,
  as the program writes them (\<^verbatim>\<open>toISOString\<close>). \<open>other\<close> holds whatever else the object
  carries, by property name (older files have an \<^verbatim>\<open>updatedAt\<close>), as JSON values.
\<close>

datatype json =
  JNull | JBool bool | JNum int | JStr string | JArr "json list" | JObj "(string \<times> json) list"

record entry =
  at :: "string option"
  notifiedAt :: "string option"
  title :: string
  other :: "(string \<times> json) list"

text \<open>
  The ledger is a JavaScript object used as a dictionary. Its own properties, in the
  order \<^verbatim>\<open>Object.entries\<close> enumerates them, are what \<^verbatim>\<open>JSON.parse\<close> reads from
  \<^verbatim>\<open>notified.json\<close> and what \<^verbatim>\<open>JSON.stringify\<close> writes to it; an object has each property
  name once, which is \<open>distinct (map fst notified)\<close>. The program writes identity keys
  \<^verbatim>\<open>owner/repo#number\<close> only, but a file can hold any name.
\<close>

type_synonym ledger = "(string \<times> entry) list"

text \<open>
  The object itself has a prototype besides its own properties. \<^verbatim>\<open>JSON.parse\<close> and the
  literal \<^verbatim>\<open>{}\<close> give an object whose prototype is \<^verbatim>\<open>Object.prototype\<close>, here
  \<open>proto = None\<close>. An assignment to the name \<^verbatim>\<open>__proto__\<close> of such an object does not add a
  property: it runs the setter of \<^verbatim>\<open>Object.prototype\<close>, which makes the assigned object the
  prototype, here \<open>proto = Some value\<close>.
\<close>

record ledger_object =
  own :: ledger
  proto :: "entry option"

record repository =
  nameWithOwner :: string

text \<open>
  A pull request as \<^verbatim>\<open>gh search prs --json number,url,repository,title,updatedAt\<close> prints
  it. Its field \<^verbatim>\<open>title\<close> is \<open>pr_title\<close> here, \<open>title\<close> being the field of a ledger entry.
\<close>

record pr =
  number :: nat
  url :: string
  repository :: repository
  pr_title :: string
  updatedAt :: string

section \<open>Pruning the ledger\<close>

text \<open>
  JavaScript truthiness of a value that is a string or \<^verbatim>\<open>undefined\<close>: only a non-empty
  string is truthy.
\<close>

definition truthy :: "string option \<Rightarrow> bool" where
  "truthy v = (case v of None \<Rightarrow> False | Some s \<Rightarrow> s \<noteq> [])"

text \<open>\<^verbatim>\<open>a || b\<close>\<close>

definition js_or :: "string option \<Rightarrow> string option \<Rightarrow> string option" where
  "js_or a b = (if truthy a then a else b)"

text \<open>Truthiness of a JSON value.\<close>

fun json_truthy :: "json \<Rightarrow> bool" where
  "json_truthy JNull = False"
| "json_truthy (JBool b) = b"
| "json_truthy (JNum n) = (n \<noteq> 0)"
| "json_truthy (JStr s) = (s \<noteq> [])"
| "json_truthy (JArr xs) = True"
| "json_truthy (JObj ps) = True"

text \<open>
  The names that \<^verbatim>\<open>Object.prototype\<close> defines. Reading any of them gives a function or
  an object, which is truthy.
\<close>

definition object_prototype :: "string list" where
  "object_prototype =
     [''constructor'', ''__defineGetter__'', ''__defineSetter__'', ''hasOwnProperty'',
      ''__lookupGetter__'', ''__lookupSetter__'', ''isPrototypeOf'', ''propertyIsEnumerable'',
      ''toString'', ''valueOf'', ''__proto__'', ''toLocaleString'']"

text \<open>
  Whether \<^verbatim>\<open>e[k]\<close> is truthy, for an entry \<open>e\<close>: its own properties first, then those of
  \<^verbatim>\<open>Object.prototype\<close>.
\<close>

definition entry_truthy_at :: "entry \<Rightarrow> string \<Rightarrow> bool" where
  "entry_truthy_at e k =
     (if k = ''at'' then truthy (at e)
      else if k = ''notifiedAt'' then truthy (notifiedAt e)
      else if k = ''title'' then title e \<noteq> []
      else case map_of (other e) k of
             Some j \<Rightarrow> json_truthy j
           | None \<Rightarrow> k \<in> set object_prototype)"

text \<open>
  Whether \<^verbatim>\<open>notified[k]\<close> is truthy: an own property is an entry, an object, hence truthy;
  a name the object does not own is looked up along the prototype chain.
\<close>

definition truthy_at :: "ledger_object \<Rightarrow> string \<Rightarrow> bool" where
  "truthy_at notified k =
     (case map_of (own notified) k of
        Some e \<Rightarrow> True
      | None \<Rightarrow>
          (case proto notified of
             Some e \<Rightarrow> entry_truthy_at e k
           | None \<Rightarrow> k \<in> set object_prototype))"

text \<open>
  The assignment \<^verbatim>\<open>notified[k] = value\<close>. An existing own property keeps its place, a new
  one goes to the end (\<open>AList.update\<close>); the name \<^verbatim>\<open>__proto__\<close>, unless the object owns a
  property of that name, sets the prototype instead.
\<close>

definition assign :: "ledger_object \<Rightarrow> string \<Rightarrow> entry \<Rightarrow> ledger_object" where
  "assign notified k v =
     (if k = ''__proto__'' \<and> map_of (own notified) k = None
      then notified\<lparr>proto := Some v\<rparr>
      else notified\<lparr>own := AList.update k v (own notified)\<rparr>)"

text \<open>
  The test of the loop in \<^verbatim>\<open>cleanupOldNotified\<close>:
  \<^verbatim>\<open>timestamp && new Date(timestamp).getTime() > cutoff\<close> with
  \<^verbatim>\<open>timestamp = value.at || value.notifiedAt\<close>. The parameter \<open>parse\<close> stands for
  \<^verbatim>\<open>new Date(s).getTime()\<close> of the JavaScript runtime: the time of \<open>s\<close> in milliseconds, or
  \<open>None\<close> for \<^verbatim>\<open>NaN\<close> (an invalid date). A comparison with \<^verbatim>\<open>NaN\<close> is false.
\<close>

definition keeps :: "(string \<Rightarrow> int option) \<Rightarrow> int \<Rightarrow> entry \<Rightarrow> bool" where
  "keeps parse cutoff value =
     (let timestamp = js_or (at value) (notifiedAt value)
      in case timestamp of
           None \<Rightarrow> False
         | Some s \<Rightarrow> s \<noteq> [] \<and> (case parse s of None \<Rightarrow> False | Some t \<Rightarrow> t > cutoff))"

text \<open>
  The \<^verbatim>\<open>for\<close> loop of \<^verbatim>\<open>cleanupOldNotified\<close> over \<^verbatim>\<open>Object.entries(notified)\<close>, with the
  object \<^verbatim>\<open>cleaned\<close> as accumulator and \<^verbatim>\<open>cleaned[key] = value\<close> as its step.
\<close>

fun cleanup_loop ::
  "(string \<Rightarrow> int option) \<Rightarrow> int \<Rightarrow> ledger \<Rightarrow> ledger_object \<Rightarrow> ledger_object" where
  "cleanup_loop parse cutoff [] cleaned = cleaned"
| "cleanup_loop parse cutoff ((key, value) # rest) cleaned =
     cleanup_loop parse cutoff rest
       (if keeps parse cutoff value then assign cleaned key value else cleaned)"

text \<open>
  \<^verbatim>\<open>cleanupOldNotified(notified, retentionDays)\<close>. The source reads the clock once, as
  \<^verbatim>\<open>Date.now()\<close>; the reading is the argument \<open>now\<close> (milliseconds). Times are integers
  well inside the range where JavaScript numbers are exact. \<^verbatim>\<open>cleaned\<close> starts as \<^verbatim>\<open>{}\<close>.
\<close>

definition cleanupOldNotified ::
  "(string \<Rightarrow> int option) \<Rightarrow> int \<Rightarrow> ledger_object \<Rightarrow> int \<Rightarrow> ledger_object" where
  "cleanupOldNotified parse now notified retentionDays =
     (let cutoff = now - retentionDays * 24 * 60 * 60 * 1000
      in cleanup_loop parse cutoff (own notified) \<lparr>own = [], proto = None\<rparr>)"

subsection \<open>The pruning rule in the words of the specification\<close>

text \<open>
  The resolved timestamp of an entry: field \<open>at\<close> when the entry has one (a missing or
  empty field is none), else the legacy field \<open>notifiedAt\<close>.
\<close>

definition resolved_timestamp :: "entry \<Rightarrow> string option" where
  "resolved_timestamp e =
     (case at e of
        Some s \<Rightarrow> if s = [] then notifiedAt e else Some s
      | None \<Rightarrow> notifiedAt e)"

text \<open>The time it resolves to, if it resolves to a valid time at all.\<close>

definition resolved_time :: "(string \<Rightarrow> int option) \<Rightarrow> entry \<Rightarrow> int option" where
  "resolved_time parse e =
     (case resolved_timestamp e of
        None \<Rightarrow> None
      | Some s \<Rightarrow> if s = [] then None else parse s)"

text \<open>An entry is retained when its resolved time is strictly newer than now minus R days.\<close>

definition retained :: "(string \<Rightarrow> int option) \<Rightarrow> int \<Rightarrow> int \<Rightarrow> entry \<Rightarrow> bool" where
  "retained parse now R e =
     (case resolved_time parse e of
        None \<Rightarrow> False
      | Some t \<Rightarrow> now - R * 86400000 < t)"

section \<open>The runtime and the outside world\<close>

text \<open>
  What one run observes of the machine it runs on. \<open>'w\<close> is the state of the outside
  world, of which the program knows nothing but the answers it gets:
  \<^item> \<open>dateNow\<close>: reading the clock (\<^verbatim>\<open>Date.now()\<close>, \<^verbatim>\<open>new Date()\<close>) gives the time in
    milliseconds; the world after the reading may be another one, since time passes;
  \<^item> \<open>dateParse\<close>: \<^verbatim>\<open>new Date(s).getTime()\<close>, \<open>None\<close> for \<^verbatim>\<open>NaN\<close>;
  \<^item> \<open>toISOString\<close>: \<^verbatim>\<open>new Date(t).toISOString()\<close>;
  \<^item> \<open>execOpen\<close>: \<^verbatim>\<open>execSync(`open -a "Google Chrome" "${url}"`)\<close>; \<open>True\<close> when the command
    returns, \<open>False\<close> when \<^verbatim>\<open>execSync\<close> throws.
\<close>

record 'w os =
  dateNow :: "'w \<Rightarrow> int \<times> 'w"
  dateParse :: "string \<Rightarrow> int option"
  toISOString :: "int \<Rightarrow> string"
  execOpen :: "string \<Rightarrow> 'w \<Rightarrow> bool \<times> 'w"

text \<open>
  The lines the program logs, by their template: \<^verbatim>\<open>Paused\<close>, \<^verbatim>\<open>[<time>] Started\<close>,
  \<^verbatim>\<open>Fetched: <n> PRs\<close>, \<^verbatim>\<open>No review requests\<close>, \<^verbatim>\<open>New: <n> PRs\<close>,
  \<^verbatim>\<open>[DRY-RUN] Would open: <url>\<close>, \<^verbatim>\<open>Opened: <url>\<close>, \<^verbatim>\<open>Done\<close>, and through \<^verbatim>\<open>logError\<close>
  \<^verbatim>\<open>GitHub API failed: ...\<close> and \<^verbatim>\<open>Failed: <url> ...\<close>.
\<close>

datatype message =
  Paused | Started string | Fetched nat | NoReviewRequests | New nat
  | WouldOpen string | Opened string | Done

datatype error_message = GitHubFailed | Failed string

text \<open>
  What a run does to the outside, in the order it does it: a logged line, the launch of
  the browser on a URL, the \<^verbatim>\<open>osascript\<close> notification (its title, and the count that its
  message reports), and the writing of \<^verbatim>\<open>notified.json\<close>.
\<close>

datatype event =
  Log message
  | LogError error_message
  | ExecOpen string
  | ExecNotify string nat
  | WriteNotified ledger

record 'w st =
  world :: 'w
  out :: "event list"

definition log :: "message \<Rightarrow> 'w st \<Rightarrow> 'w st" where
  "log m s = s\<lparr>out := out s @ [Log m]\<rparr>"

definition logError :: "error_message \<Rightarrow> 'w st \<Rightarrow> 'w st" where
  "logError m s = s\<lparr>out := out s @ [LogError m]\<rparr>"

definition readClock :: "'w os \<Rightarrow> 'w st \<Rightarrow> int \<times> 'w st" where
  "readClock os s = (case dateNow os (world s) of (t, w') \<Rightarrow> (t, s\<lparr>world := w'\<rparr>))"

section \<open>The functions of index.js\<close>

text \<open>
  \<^verbatim>\<open>loadConfig\<close>: the defaults, overridden by every key the file has; the defaults alone
  when the file is missing or is not JSON (\<open>None\<close>). No value is checked.
\<close>

definition loadConfig :: "config_json option \<Rightarrow> config" where
  "loadConfig json =
     (let defaults = \<lparr>maxTabsToOpen = 5, paused = False, excludeDraft = True,
                      notifiedRetentionDays = 7, enableNotification = True\<rparr>
      in case json of
           None \<Rightarrow> defaults
         | Some j \<Rightarrow>
             \<lparr>maxTabsToOpen =
                (case maxTabsToOpen_opt j of None \<Rightarrow> maxTabsToOpen defaults | Some v \<Rightarrow> v),
              paused = (case paused_opt j of None \<Rightarrow> paused defaults | Some v \<Rightarrow> v),
              excludeDraft =
                (case excludeDraft_opt j of None \<Rightarrow> excludeDraft defaults | Some v \<Rightarrow> v),
              notifiedRetentionDays =
                (case notifiedRetentionDays_opt j of
                   None \<Rightarrow> notifiedRetentionDays defaults | Some v \<Rightarrow> v),
              enableNotification =
                (case enableNotification_opt j of
                   None \<Rightarrow> enableNotification defaults | Some v \<Rightarrow> v)\<rparr>)"

text \<open>\<^verbatim>\<open>notified.json\<close> as \<^verbatim>\<open>loadNotified\<close> finds it.\<close>

datatype notified_file = Missing | Corrupt | Content ledger

definition loadNotified :: "notified_file \<Rightarrow> ledger_object" where
  "loadNotified nfile =
     (case nfile of
        Missing \<Rightarrow> \<lparr>own = [], proto = None\<rparr>
      | Corrupt \<Rightarrow> \<lparr>own = [], proto = None\<rparr>
      | Content data \<Rightarrow> \<lparr>own = data, proto = None\<rparr>)"

text \<open>
  \<^verbatim>\<open>saveNotified(data)\<close>: \<^verbatim>\<open>JSON.stringify\<close> writes the own properties of \<^verbatim>\<open>data\<close>, and nothing
  that it inherits.
\<close>

definition saveNotified :: "ledger_object \<Rightarrow> 'w st \<Rightarrow> 'w st" where
  "saveNotified data s = s\<lparr>out := out s @ [WriteNotified (own data)]\<rparr>"

text \<open>
  The call \<^verbatim>\<open>cleanupOldNotified(notified, retentionDays)\<close> as \<^verbatim>\<open>main\<close> makes it: the function
  reads the clock itself.
\<close>

definition cleanupOldNotified_call ::
  "'w os \<Rightarrow> ledger_object \<Rightarrow> int \<Rightarrow> 'w st \<Rightarrow> ledger_object \<times> 'w st" where
  "cleanupOldNotified_call os notified retentionDays s =
     (case readClock os s of
        (now, s1) \<Rightarrow> (cleanupOldNotified (dateParse os) now notified retentionDays, s1))"

text \<open>
  \<^verbatim>\<open>fetchPRs(excludeDraft)\<close>. \<open>gh\<close> is the answer of the \<^verbatim>\<open>gh search prs\<close> command, with
  or without \<^verbatim>\<open>--draft=false\<close>: the parsed list, or \<open>None\<close> when the command fails, times
  out or prints no JSON.
\<close>

definition fetchPRs :: "(bool \<Rightarrow> pr list option) \<Rightarrow> bool \<Rightarrow> 'w st \<Rightarrow> pr list \<times> 'w st" where
  "fetchPRs gh draftFilter s =
     (case gh draftFilter of
        Some prs \<Rightarrow> (prs, s)
      | None \<Rightarrow> ([], logError GitHubFailed s))"

text \<open>
  \<^verbatim>\<open>sendNotification(title, message)\<close>: the \<^verbatim>\<open>osascript\<close> command is run and its failure is
  ignored. The message is the count followed by a fixed text.
\<close>

definition sendNotification :: "string \<Rightarrow> nat \<Rightarrow> 'w st \<Rightarrow> 'w st" where
  "sendNotification ttl count s = s\<lparr>out := out s @ [ExecNotify ttl count]\<rparr>"

text \<open>\<^verbatim>\<open>openTab(url)\<close>, with the constant \<^verbatim>\<open>DRY_RUN\<close> as argument.\<close>

definition openTab :: "'w os \<Rightarrow> bool \<Rightarrow> string \<Rightarrow> 'w st \<Rightarrow> bool \<times> 'w st" where
  "openTab os DRY_RUN u s =
     (if DRY_RUN then (True, log (WouldOpen u) s)
      else case execOpen os u (world s) of
             (ok, w') \<Rightarrow>
               (let s1 = s\<lparr>world := w', out := out s @ [ExecOpen u]\<rparr>
                in if ok then (True, log (Opened u) s1)
                   else (False, logError (Failed u) s1)))"

text \<open>A number in a template literal: its decimal digits.\<close>

fun string_of_nat :: "nat \<Rightarrow> string" where
  "string_of_nat n =
     (if n < 10 then [''0123456789'' ! n]
      else string_of_nat (n div 10) @ [''0123456789'' ! (n mod 10)])"

declare string_of_nat.simps [simp del]

text \<open>\<^verbatim>\<open>key = (pr) => `${pr.repository.nameWithOwner}#${pr.number}`\<close>\<close>

definition key :: "pr \<Rightarrow> string" where
  "key p = nameWithOwner (repository p) @ ''#'' @ string_of_nat (number p)"

text \<open>
  \<^verbatim>\<open>Array.prototype.slice(start, end)\<close>: a negative index counts from the end of the
  array, and both are clamped to the array.
\<close>

definition slice :: "'a list \<Rightarrow> int \<Rightarrow> int \<Rightarrow> 'a list" where
  "slice xs start fin =
     (let len = int (length xs);
          k = (if start < 0 then max (len + start) 0 else min start len);
          final = (if fin < 0 then max (len + fin) 0 else min fin len)
      in take (nat (final - k)) (drop (nat k) xs))"

text \<open>\<^verbatim>\<open>prs.filter((pr) => !notified[key(pr)]).slice(0, config.maxTabsToOpen)\<close>\<close>

definition newPRs :: "ledger_object \<Rightarrow> pr list \<Rightarrow> int \<Rightarrow> pr list" where
  "newPRs notified prs maxTabs =
     slice (filter (\<lambda>p. \<not> truthy_at notified (key p)) prs) 0 maxTabs"

text \<open>
  The loop \<^verbatim>\<open>for (const pr of newPRs)\<close> of \<^verbatim>\<open>main\<close>:
  \<^verbatim>\<open>if (openTab(pr.url)) notified[key(pr)] = { at: new Date().toISOString(), title: pr.title }\<close>.
\<close>

fun open_loop ::
  "'w os \<Rightarrow> bool \<Rightarrow> pr list \<Rightarrow> ledger_object \<Rightarrow> 'w st \<Rightarrow> ledger_object \<times> 'w st" where
  "open_loop os DRY_RUN [] notified s = (notified, s)"
| "open_loop os DRY_RUN (p # rest) notified s =
     (case openTab os DRY_RUN (url p) s of
        (True, s1) \<Rightarrow>
          (case readClock os s1 of
             (t, s2) \<Rightarrow>
               open_loop os DRY_RUN rest
                 (assign notified (key p)
                    \<lparr>at = Some (toISOString os t), notifiedAt = None, title = pr_title p,
                     other = []\<rparr>)
                 s2)
      | (False, s1) \<Rightarrow> open_loop os DRY_RUN rest notified s1)"

text \<open>
  \<^verbatim>\<open>main()\<close>: one run, from the world \<open>w\<close>, given the flag \<^verbatim>\<open>--dry-run\<close>, the two files and
  the answer of \<^verbatim>\<open>gh\<close>. The result is the world afterwards and everything the run did.
\<close>

definition main ::
  "'w os \<Rightarrow> bool \<Rightarrow> config_json option \<Rightarrow> notified_file \<Rightarrow> (bool \<Rightarrow> pr list option) \<Rightarrow> 'w
   \<Rightarrow> 'w st" where
  "main os DRY_RUN config_file nfile gh w =
     (let config = loadConfig config_file;
          s0 = \<lparr>world = w, out = []\<rparr>
      in if paused config then log Paused s0
         else
           case readClock os s0 of (t0, s1) \<Rightarrow>
           let s2 = log (Started (toISOString os t0)) s1;
               notified = loadNotified nfile
           in case cleanupOldNotified_call os notified (notifiedRetentionDays config) s2
              of (notified, s3) \<Rightarrow>
           case fetchPRs gh (excludeDraft config) s3 of (prs, s4) \<Rightarrow>
           let s5 = log (Fetched (length prs)) s4
           in if length prs = 0
              then log NoReviewRequests (saveNotified notified s5)
              else
                let new = newPRs notified prs (maxTabsToOpen config);
                    s6 = log (New (length new)) s5
                in case open_loop os DRY_RUN new notified s6 of (notified, s7) \<Rightarrow>
                let s8 = (if length new > 0 \<and> enableNotification config
                          then sendNotification ''PR Opener'' (length new) s7
                          else s7)
                in log Done (saveNotified notified s8))"

section \<open>Observing a run\<close>

text \<open>The URLs on which the browser was launched, in order.\<close>

fun launched :: "event list \<Rightarrow> string list" where
  "launched [] = []"
| "launched (ExecOpen u # es) = u # launched es"
| "launched (e # es) = launched es"

text \<open>
  The URLs that \<^verbatim>\<open>openTab\<close> was called with, in order: each call leaves one trace, the
  launch of the browser or, in a dry run, the line \<^verbatim>\<open>[DRY-RUN] Would open: <url>\<close>.
\<close>

fun attempted :: "event list \<Rightarrow> string list" where
  "attempted [] = []"
| "attempted (ExecOpen u # es) = u # attempted es"
| "attempted (Log (WouldOpen u) # es) = u # attempted es"
| "attempted (e # es) = attempted es"

text \<open>
  The URLs on which the launch succeeded, in order: the tabs opened, each reported by a
  line \<^verbatim>\<open>Opened: <url>\<close> of the log.
\<close>

fun opened :: "event list \<Rightarrow> string list" where
  "opened [] = []"
| "opened (Log (Opened u) # es) = u # opened es"
| "opened (e # es) = opened es"

text \<open>The notifications sent, and the ledgers written to \<^verbatim>\<open>notified.json\<close>.\<close>

fun notifications :: "event list \<Rightarrow> (string \<times> nat) list" where
  "notifications [] = []"
| "notifications (ExecNotify ttl n # es) = (ttl, n) # notifications es"
| "notifications (e # es) = notifications es"

fun writes :: "event list \<Rightarrow> ledger list" where
  "writes [] = []"
| "writes (WriteNotified data # es) = data # writes es"
| "writes (e # es) = writes es"

text \<open>
  What \<^verbatim>\<open>openTab\<close> returned for each PR of the loop, in order: \<open>Some t\<close> when it returned
  true, with the clock reading \<open>t\<close> that stamps the entry; \<open>None\<close> when it returned false.
\<close>

fun attempts :: "'w os \<Rightarrow> bool \<Rightarrow> pr list \<Rightarrow> 'w st \<Rightarrow> (pr \<times> int option) list" where
  "attempts os DRY_RUN [] s = []"
| "attempts os DRY_RUN (p # rest) s =
     (case openTab os DRY_RUN (url p) s of
        (True, s1) \<Rightarrow>
          (case readClock os s1 of (t, s2) \<Rightarrow> (p, Some t) # attempts os DRY_RUN rest s2)
      | (False, s1) \<Rightarrow> (p, None) # attempts os DRY_RUN rest s1)"

text \<open>
  The number of calls of \<^verbatim>\<open>openTab\<close> that returned true: in a run that is not a dry run,
  the number of tabs opened.
\<close>

definition opened_count :: "(pr \<times> int option) list \<Rightarrow> nat" where
  "opened_count as = length (filter (\<lambda>(p, r). r \<noteq> None) as)"

text \<open>The entry that a successful open of \<open>p\<close> at time \<open>t\<close> writes.\<close>

definition new_entry :: "'w os \<Rightarrow> int \<Rightarrow> pr \<Rightarrow> entry" where
  "new_entry os t p =
     \<lparr>at = Some (toISOString os t), notifiedAt = None, title = pr_title p, other = []\<rparr>"

text \<open>What one call of \<^verbatim>\<open>openTab\<close> in the loop does to the ledger, given what it returned.\<close>

fun record_attempt :: "'w os \<Rightarrow> ledger_object \<Rightarrow> pr \<times> int option \<Rightarrow> ledger_object" where
  "record_attempt os n (p, Some t) = assign n (key p) (new_entry os t p)"
| "record_attempt os n (p, None) = n"

text \<open>The last successful open among \<open>as\<close> of a PR with identity key \<open>k\<close>.\<close>

fun last_success :: "string \<Rightarrow> (pr \<times> int option) list \<Rightarrow> (pr \<times> int) option" where
  "last_success k [] = None"
| "last_success k ((p, r) # as) =
     (case last_success k as of
        Some x \<Rightarrow> Some x
      | None \<Rightarrow> (case r of Some t \<Rightarrow> if key p = k then Some (p, t) else None | None \<Rightarrow> None))"

text \<open>
  The values that \<^verbatim>\<open>main\<close> computes on its way: the clock reading of the prune and the state
  after it, the pruned ledger, the fetched list, the PRs selected, the state in which the
  loop starts, what the loop's calls of \<^verbatim>\<open>openTab\<close> returned, and the ledger after the loop.
\<close>

definition started :: "'w os \<Rightarrow> 'w \<Rightarrow> int \<times> 'w st" where
  "started os w =
     (case readClock os \<lparr>world = w, out = []\<rparr> of
        (t0, s1) \<Rightarrow> readClock os (log (Started (toISOString os t0)) s1))"

definition pruned ::
  "'w os \<Rightarrow> config_json option \<Rightarrow> notified_file \<Rightarrow> 'w \<Rightarrow> ledger_object" where
  "pruned os config_file nfile w =
     cleanupOldNotified (dateParse os) (fst (started os w)) (loadNotified nfile)
       (notifiedRetentionDays (loadConfig config_file))"

definition fetched :: "config_json option \<Rightarrow> (bool \<Rightarrow> pr list option) \<Rightarrow> pr list" where
  "fetched config_file gh =
     (case gh (excludeDraft (loadConfig config_file)) of Some prs \<Rightarrow> prs | None \<Rightarrow> [])"

definition selected ::
  "'w os \<Rightarrow> config_json option \<Rightarrow> notified_file \<Rightarrow> (bool \<Rightarrow> pr list option) \<Rightarrow> 'w \<Rightarrow> pr list" where
  "selected os config_file nfile gh w =
     newPRs (pruned os config_file nfile w) (fetched config_file gh)
       (maxTabsToOpen (loadConfig config_file))"

definition loop_start ::
  "'w os \<Rightarrow> config_json option \<Rightarrow> notified_file \<Rightarrow> (bool \<Rightarrow> pr list option) \<Rightarrow> 'w \<Rightarrow> 'w st" where
  "loop_start os config_file nfile gh w =
     log (New (length (selected os config_file nfile gh w)))
       (log (Fetched (length (fetched config_file gh)))
          (snd (fetchPRs gh (excludeDraft (loadConfig config_file)) (snd (started os w)))))"

definition run_attempts ::
  "'w os \<Rightarrow> bool \<Rightarrow> config_json option \<Rightarrow> notified_file \<Rightarrow> (bool \<Rightarrow> pr list option) \<Rightarrow> 'w
   \<Rightarrow> (pr \<times> int option) list" where
  "run_attempts os DRY_RUN config_file nfile gh w =
     attempts os DRY_RUN (selected os config_file nfile gh w) (loop_start os config_file nfile gh w)"

definition final_ledger ::
  "'w os \<Rightarrow> bool \<Rightarrow> config_json option \<Rightarrow> notified_file \<Rightarrow> (bool \<Rightarrow> pr list option) \<Rightarrow> 'w
   \<Rightarrow> ledger_object" where
  "final_ledger os DRY_RUN config_file nfile gh w =
     fst (open_loop os DRY_RUN (selected os config_file nfile gh w)
            (pruned os config_file nfile w) (loop_start os config_file nfile gh w))"

section \<open>Example inputs\<close>

text \<open>
  A runtime for the examples: the world is the number of clock readings so far, the clock
  starts on 11 January 1970 and advances by a millisecond at each reading, three dates
  parse, and the browser fails to launch on the URLs in \<open>blocked\<close>. Its \<open>toISOString\<close> is
  right for the first ten milliseconds of that day, where the examples read the clock.
\<close>

definition ex_parse :: "string \<Rightarrow> int option" where
  "ex_parse s =
     (if s = ''1970-01-10T00:00:00.000Z'' then Some 777600000
      else if s = ''1970-01-04T00:00:00.000Z'' then Some 259200000
      else if s = ''1970-01-02T00:00:00.000Z'' then Some 86400000
      else None)"

definition ex_os :: "string list \<Rightarrow> nat os" where
  "ex_os blocked =
     \<lparr>dateNow = (\<lambda>w. (864000000 + int w, Suc w)),
      dateParse = ex_parse,
      toISOString = (\<lambda>t. ''1970-01-11T00:00:00.00'' @ string_of_nat (nat (t - 864000000)) @ ''Z''),
      execOpen = (\<lambda>u w. (u \<notin> set blocked, w))\<rparr>"

definition ex_ledger :: ledger where
  "ex_ledger =
     [(''o/r#1'', \<lparr>at = Some ''1970-01-10T00:00:00.000Z'', notifiedAt = None, title = ''one'', other = []\<rparr>),
      (''o/r#2'', \<lparr>at = Some ''1970-01-04T00:00:00.000Z'', notifiedAt = None, title = ''two'', other = []\<rparr>),
      (''o/r#3'', \<lparr>at = None, notifiedAt = Some ''1970-01-10T00:00:00.000Z'', title = ''three'',
          other = [(''updatedAt'', JStr ''1970-01-09T00:00:00.000Z'')]\<rparr>),
      (''o/r#4'', \<lparr>at = Some ''yesterday'', notifiedAt = Some ''1970-01-10T00:00:00.000Z'',
                   title = ''four'', other = []\<rparr>),
      (''o/r#5'', \<lparr>at = None, notifiedAt = None, title = ''five'', other = []\<rparr>),
      (''o/r#6'', \<lparr>at = Some ''1970-01-02T00:00:00.000Z'', notifiedAt = None, title = ''six'', other = []\<rparr>)]"

definition ex_pr :: "nat \<Rightarrow> string \<Rightarrow> string \<Rightarrow> pr" where
  "ex_pr n u ttl =
     \<lparr>number = n, url = u, repository = \<lparr>nameWithOwner = ''o/r''\<rparr>, pr_title = ttl,
      updatedAt = ''1970-01-10T12:00:00Z''\<rparr>"

definition ex_config :: "int \<Rightarrow> config_json" where
  "ex_config m =
     \<lparr>maxTabsToOpen_opt = Some m, paused_opt = None, excludeDraft_opt = None,
      notifiedRetentionDays_opt = None, enableNotification_opt = None\<rparr>"

definition ex_prs :: "pr list" where
  "ex_prs =
     [ex_pr 3 ''https://github.com/o/r/pull/3'' ''three, retitled'',
      ex_pr 7 ''https://github.com/o/r/pull/7'' ''seven'',
      ex_pr 2 ''https://github.com/o/r/pull/2'' ''two'',
      ex_pr 8 ''https://github.com/o/r/pull/8'' ''eight'']"

definition ex_gh :: "bool \<Rightarrow> pr list option" where
  "ex_gh draftFilter = Some ex_prs"

text \<open>A fetch of three PRs, none of them in \<open>ex_ledger\<close> once it is pruned.\<close>

definition ex_new :: "bool \<Rightarrow> pr list option" where
  "ex_new draftFilter =
     Some [ex_pr 7 ''https://github.com/o/r/pull/7'' ''seven'',
           ex_pr 2 ''https://github.com/o/r/pull/2'' ''two'',
           ex_pr 8 ''https://github.com/o/r/pull/8'' ''eight'']"

text \<open>
  A runtime as \<open>ex_os\<close>, but where a launch of the browser moves the world on as a clock
  reading does, and fails once the world has reached \<open>limit\<close>.
\<close>

definition ex_flaky :: "nat \<Rightarrow> nat os" where
  "ex_flaky limit =
     \<lparr>dateNow = (\<lambda>w. (864000000 + int w, Suc w)),
      dateParse = ex_parse,
      toISOString = (\<lambda>t. ''1970-01-11T00:00:00.00'' @ string_of_nat (nat (t - 864000000)) @ ''Z''),
      execOpen = (\<lambda>u w. (w < limit, Suc w))\<rparr>"

text \<open>
  A ledger file with an entry under the name \<^verbatim>\<open>__proto__\<close>, which itself carries a property
  named as an identity key.
\<close>

definition ex_proto_ledger :: ledger where
  "ex_proto_ledger =
     [(''__proto__'', \<lparr>at = Some ''1970-01-10T00:00:00.000Z'', notifiedAt = None, title = ''p'',
                        other = [(''o/r#7'', JBool True)]\<rparr>),
      (''o/r#1'', \<lparr>at = Some ''1970-01-10T00:00:00.000Z'', notifiedAt = None, title = ''one'',
                    other = []\<rparr>)]"

definition ex_twice :: "bool \<Rightarrow> pr list option" where
  "ex_twice draftFilter =
     Some [ex_pr 7 ''https://github.com/o/r/pull/7'' ''seven'',
           ex_pr 7 ''https://github.com/o/r/pull/7'' ''seven, again'']"

section \<open>Reading and writing the ledger object\<close>

lemma hash_in_key: "CHR ''#'' \<in> set (key p)"
  by (simp add: key_def)

lemma key_neq: "CHR ''#'' \<notin> set k \<Longrightarrow> key p \<noteq> k"
  using hash_in_key [of p] by auto

text \<open>An identity key is none of the names that have a meaning of their own.\<close>

lemma key_not_special:
  "key p \<noteq> ''__proto__''" "key p \<noteq> ''at''" "key p \<noteq> ''notifiedAt''" "key p \<noteq> ''title''"
  "key p \<notin> set object_prototype"
proof -
  show "key p \<noteq> ''__proto__''" "key p \<noteq> ''at''" "key p \<noteq> ''notifiedAt''" "key p \<noteq> ''title''"
    by (rule key_neq, simp)+
  have "\<forall>k \<in> set object_prototype. CHR ''#'' \<notin> set k"
    by (simp add: object_prototype_def)
  then show "key p \<notin> set object_prototype"
    using hash_in_key [of p] by blast
qed

lemma assign_key: "assign n (key p) v = n\<lparr>own := AList.update (key p) v (own n)\<rparr>"
  by (simp add: assign_def key_not_special)

lemma own_assign:
  "own (assign n k v) =
     (if k = ''__proto__'' \<and> map_of (own n) k = None then own n else AList.update k v (own n))"
  by (auto simp add: assign_def)

lemma proto_assign:
  "proto (assign n k v) =
     (if k = ''__proto__'' \<and> map_of (own n) k = None then Some v else proto n)"
  by (auto simp add: assign_def)

text \<open>
  Under an identity key, \<^verbatim>\<open>notified[k]\<close> is truthy when the object owns the key, or
  inherits a truthy property of that name from the entry that is its prototype.
\<close>

lemma truthy_at_key:
  "truthy_at n (key p) =
     (map_of (own n) (key p) \<noteq> None
      \<or> (case proto n of
            Some e \<Rightarrow> (case map_of (other e) (key p) of Some j \<Rightarrow> json_truthy j | None \<Rightarrow> False)
          | None \<Rightarrow> False))"
  by (simp add: truthy_at_def entry_truthy_at_def key_not_special split: option.splits)

lemma truthy_at_key_plain:
  "proto n = None \<Longrightarrow> truthy_at n (key p) = (key p \<in> fst ` set (own n))"
  by (simp add: truthy_at_key map_of_eq_None_iff)

lemma truthy_at_own: "k \<in> fst ` set (own n) \<Longrightarrow> truthy_at n k"
  by (auto simp add: truthy_at_def map_of_eq_None_iff split: option.splits)

section \<open>The examples, evaluated\<close>

lemma string_of_nat_digit: "n < 10 \<Longrightarrow> string_of_nat n = [''0123456789'' ! n]"
  by (subst string_of_nat.simps) simp

lemma ex_started:
  "started (ex_os b) 0 =
     (864000001, \<lparr>world = 2, out = [Log (Started ''1970-01-11T00:00:00.000Z'')]\<rparr>)"
  by (simp add: started_def readClock_def ex_os_def log_def string_of_nat_digit)

lemma ex_retention:
  "notifiedRetentionDays (loadConfig None) = 7"
  "notifiedRetentionDays (loadConfig (Some (ex_config m))) = 7"
  by (simp_all add: loadConfig_def ex_config_def)

lemma ex_maxTabs:
  "maxTabsToOpen (loadConfig (Some (ex_config m))) = m"
  "\<not> paused (loadConfig (Some (ex_config m)))"
  "enableNotification (loadConfig (Some (ex_config m)))"
  "maxTabsToOpen (loadConfig None) = 5"
  "\<not> paused (loadConfig None)"
  "enableNotification (loadConfig None)"
  by (simp_all add: loadConfig_def ex_config_def)

lemma ex_pruned:
  assumes "notifiedRetentionDays (loadConfig cf) = 7"
  shows "pruned (ex_os b) cf (Content ex_ledger) 0 =
     \<lparr>own =
        [(''o/r#1'', \<lparr>at = Some ''1970-01-10T00:00:00.000Z'', notifiedAt = None, title = ''one'',
                      other = []\<rparr>),
         (''o/r#3'', \<lparr>at = None, notifiedAt = Some ''1970-01-10T00:00:00.000Z'', title = ''three'',
                      other = [(''updatedAt'', JStr ''1970-01-09T00:00:00.000Z'')]\<rparr>)],
      proto = None\<rparr>"
  unfolding pruned_def ex_started assms
  by (simp add: loadNotified_def cleanupOldNotified_def ex_ledger_def ex_os_def ex_parse_def
      keeps_def js_or_def truthy_def assign_def)

lemma pruned_Missing: "pruned os cf Missing w = \<lparr>own = [], proto = None\<rparr>"
  by (simp add: pruned_def loadNotified_def cleanupOldNotified_def)

lemma ex_fetched: "fetched cf ex_gh = ex_prs"
  by (simp add: fetched_def ex_gh_def)

lemma ex_keys:
  "key (ex_pr 3 u t) = ''o/r#3''" "key (ex_pr 2 u t) = ''o/r#2''"
  "key (ex_pr 7 u t) = ''o/r#7''" "key (ex_pr 8 u t) = ''o/r#8''"
  by (simp_all add: key_def ex_pr_def string_of_nat_digit)

lemma ex_selected:
  "selected (ex_os b) None (Content ex_ledger) ex_gh 0 =
     [ex_pr 7 ''https://github.com/o/r/pull/7'' ''seven'',
      ex_pr 2 ''https://github.com/o/r/pull/2'' ''two'',
      ex_pr 8 ''https://github.com/o/r/pull/8'' ''eight'']"
  unfolding selected_def ex_fetched ex_pruned [OF ex_retention(1)]
  by (simp add: newPRs_def ex_prs_def ex_keys slice_def loadConfig_def truthy_at_def
      object_prototype_def)

lemma ex_selected_Missing:
  "selected os cf Missing ex_gh w = slice ex_prs 0 (maxTabsToOpen (loadConfig cf))"
  by (simp add: selected_def pruned_Missing ex_fetched newPRs_def truthy_at_key_plain)

text \<open>
  An entry under \<^verbatim>\<open>__proto__\<close> is not kept, however new: it becomes the prototype of the
  pruned ledger, and what it carries is then read through the pruned ledger.
\<close>

lemma ex_proto_pruned:
  "cleanupOldNotified ex_parse 864000000 \<lparr>own = ex_proto_ledger, proto = None\<rparr> 7 =
     \<lparr>own = [(''o/r#1'', \<lparr>at = Some ''1970-01-10T00:00:00.000Z'', notifiedAt = None,
                            title = ''one'', other = []\<rparr>)],
      proto = Some \<lparr>at = Some ''1970-01-10T00:00:00.000Z'', notifiedAt = None, title = ''p'',
                    other = [(''o/r#7'', JBool True)]\<rparr>\<rparr>"
  "truthy_at (cleanupOldNotified ex_parse 864000000 \<lparr>own = ex_proto_ledger, proto = None\<rparr> 7)
     ''o/r#7''"
  by (simp_all add: cleanupOldNotified_def ex_proto_ledger_def ex_parse_def keeps_def js_or_def
      truthy_def assign_def truthy_at_def entry_truthy_at_def)

section \<open>Properties of pruning\<close>

lemma day_ms: "R * 24 * 60 * 60 * 1000 = R * (86400000::int)"
  by simp

lemma keeps_retained:
  "keeps parse (now - R * 24 * 60 * 60 * 1000) e = retained parse now R e"
  unfolding day_ms
  by (auto simp add: keeps_def retained_def resolved_time_def resolved_timestamp_def js_or_def
      truthy_def split: option.splits)

lemma update_fresh_key:
  "k \<notin> fst ` set al \<Longrightarrow> AList.update k v al = al @ [(k, v)]"
  by (induction al) auto

text \<open>
  What the loop leaves among the own properties of \<^verbatim>\<open>cleaned\<close>: the entries that pass the
  test, but for one under \<^verbatim>\<open>__proto__\<close>.
\<close>

lemma cleanup_loop_own:
  "distinct (map fst (own c @ xs)) \<Longrightarrow> ''__proto__'' \<notin> fst ` set (own c) \<Longrightarrow>
   own (cleanup_loop parse cutoff xs c) =
     own c @ filter (\<lambda>(k, v). k \<noteq> ''__proto__'' \<and> keeps parse cutoff v) xs"
proof (induction xs arbitrary: c)
  case Nil
  then show ?case by simp
next
  case (Cons x xs)
  obtain k v where x: "x = (k, v)" by (cases x)
  from Cons.prems(1) x have fresh: "k \<notin> fst ` set (own c)"
    by auto
  from Cons.prems(1) x have rest: "distinct (map fst (own c @ xs))"
    by auto
  show ?case
  proof (cases "k \<noteq> ''__proto__'' \<and> keeps parse cutoff v")
    case True
    then have a: "own (assign c k v) = own c @ [(k, v)]"
      using fresh by (simp add: own_assign update_fresh_key)
    from Cons.prems x True have "distinct (map fst (own (assign c k v) @ xs))"
      "''__proto__'' \<notin> fst ` set (own (assign c k v))"
      unfolding a by auto
    from Cons.IH [OF this] True x show ?thesis
      by (simp add: a)
  next
    case False
    show ?thesis
    proof (cases "keeps parse cutoff v")
      case True
      with False have k: "k = ''__proto__''" by simp
      with Cons.prems(2) have "own (assign c k v) = own c"
        by (simp add: own_assign map_of_eq_None_iff)
      with Cons.IH [of "assign c k v"] rest Cons.prems(2) True k x show ?thesis
        by simp
    next
      case nk: False
      with Cons.IH [OF rest Cons.prems(2)] x show ?thesis
        by simp
    qed
  qed
qed

lemma cleanup_loop_proto:
  "''__proto__'' \<notin> fst ` set xs \<Longrightarrow> proto (cleanup_loop parse cutoff xs c) = proto c"
proof (induction xs arbitrary: c)
  case Nil
  then show ?case by simp
next
  case (Cons x xs)
  obtain k v where x: "x = (k, v)" by (cases x)
  with Cons.prems have "k \<noteq> ''__proto__''" "''__proto__'' \<notin> fst ` set xs"
    by auto
  with Cons.IH [of "assign c k v"] Cons.IH [of c] x show ?case
    by (simp add: proto_assign)
qed

lemma set_update_subset: "set (AList.update k v al) \<subseteq> insert (k, v) (set al)"
  by (induction al) auto

text \<open>What holds of \<^verbatim>\<open>cleaned\<close> all along the loop.\<close>

lemma cleanup_loop_invariant:
  "distinct (map fst (own c)) \<and> ''__proto__'' \<notin> fst ` set (own c)
     \<and> (\<forall>(k, v) \<in> set (own c). keeps parse cutoff v) \<Longrightarrow>
   distinct (map fst (own (cleanup_loop parse cutoff xs c)))
     \<and> ''__proto__'' \<notin> fst ` set (own (cleanup_loop parse cutoff xs c))
     \<and> (\<forall>(k, v) \<in> set (own (cleanup_loop parse cutoff xs c)). keeps parse cutoff v)"
proof (induction xs arbitrary: c)
  case Nil
  then show ?case by simp
next
  case (Cons x xs)
  obtain k v where x: "x = (k, v)" by (cases x)
  show ?case
  proof (cases "keeps parse cutoff v")
    case True
    with Cons.prems set_update_subset [of k v "own c"]
    have "distinct (map fst (own (assign c k v))) \<and> ''__proto__'' \<notin> fst ` set (own (assign c k v))
       \<and> (\<forall>(k', v') \<in> set (own (assign c k v)). keeps parse cutoff v')"
      by (auto simp add: own_assign distinct_update dom_update map_of_eq_None_iff)
    from Cons.IH [OF this] True x show ?thesis by simp
  next
    case False
    from Cons.IH [OF Cons.prems] False x show ?thesis by simp
  qed
qed

lemma cleanup_loop_keys:
  "fst ` set (own (cleanup_loop parse cutoff xs c)) \<subseteq> fst ` set (own c) \<union> fst ` set xs"
proof (induction xs arbitrary: c)
  case Nil
  then show ?case by simp
next
  case (Cons x xs)
  obtain k v where x: "x = (k, v)" by (cases x)
  show ?case
    using Cons.IH [of "assign c k v"] Cons.IH [of c] x
    by (auto simp add: own_assign dom_update split: if_splits)
qed

lemma cleanupOldNotified_absent:
  "map_of (own notified) k = None \<Longrightarrow>
   map_of (own (cleanupOldNotified parse now notified R)) k = None"
  using cleanup_loop_keys [of parse "now - R * 24 * 60 * 60 * 1000" "own notified"
      "\<lparr>own = [], proto = None\<rparr>"]
  by (auto simp add: cleanupOldNotified_def map_of_eq_None_iff)

lemma cleanupOldNotified_invariant:
  "distinct (map fst (own (cleanupOldNotified parse now notified R)))
   \<and> ''__proto__'' \<notin> fst ` set (own (cleanupOldNotified parse now notified R))
   \<and> (\<forall>(k, v) \<in> set (own (cleanupOldNotified parse now notified R)).
        keeps parse (now - R * 24 * 60 * 60 * 1000) v)"
  unfolding cleanupOldNotified_def Let_def
  by (rule cleanup_loop_invariant) simp

text \<open>
  C2. On a ledger object whose keys are identity keys (each key once, none of them the name
  \<^verbatim>\<open>__proto__\<close>), \<open>cleanupOldNotified\<close> returns an object whose entries are exactly the input
  entries whose resolved timestamp (\<open>at\<close> preferred, else \<open>notifiedAt\<close>) is a valid time
  strictly newer than now minus R days, each with its value unchanged and in the input's
  order, and which inherits nothing; an entry whose timestamp does not resolve to a valid
  time is dropped. The call has no side effect: it reads the clock once and leaves what the
  run has done as it was (nothing logged, launched or written).
\<close>

theorem cleanupOldNotified_exact:
  assumes "distinct (map fst (own notified))" and "''__proto__'' \<notin> fst ` set (own notified)"
  shows "own (cleanupOldNotified parse now notified R) =
           filter (\<lambda>(k, v). retained parse now R v) (own notified)
         \<and> proto (cleanupOldNotified parse now notified R) = None
         \<and> (\<forall>k. map_of (own (cleanupOldNotified parse now notified R)) k =
               (case map_of (own notified) k of
                  None \<Rightarrow> None
                | Some v \<Rightarrow> if retained parse now R v then Some v else None))
         \<and> (\<forall>k v. resolved_time parse v = None \<longrightarrow>
               (k, v) \<notin> set (own (cleanupOldNotified parse now notified R)))
         \<and> fst (cleanupOldNotified_call os notified R s) =
             cleanupOldNotified (dateParse os) (fst (dateNow os (world s))) notified R
         \<and> snd (cleanupOldNotified_call os notified R s) = snd (readClock os s)
         \<and> out (snd (cleanupOldNotified_call os notified R s)) = out s"
proof -
  define cutoff where "cutoff = now - R * 24 * 60 * 60 * 1000"
  have kr: "keeps parse cutoff v = retained parse now R v" for v
    unfolding cutoff_def by (rule keeps_retained)
  have t: "cleanupOldNotified parse now notified R =
             cleanup_loop parse cutoff (own notified) \<lparr>own = [], proto = None\<rparr>"
    by (simp add: cleanupOldNotified_def cutoff_def)
  have same: "filter (\<lambda>(k, v). k \<noteq> ''__proto__'' \<and> keeps parse cutoff v) (own notified) =
              filter (\<lambda>(k, v). retained parse now R v) (own notified)"
    using assms(2) by (intro filter_cong refl) (force simp add: kr)
  have "own (cleanup_loop parse cutoff (own notified) \<lparr>own = [], proto = None\<rparr>) =
          own \<lparr>own = [], proto = None\<rparr>
          @ filter (\<lambda>(k, v). k \<noteq> ''__proto__'' \<and> keeps parse cutoff v) (own notified)"
    by (rule cleanup_loop_own) (simp_all add: assms)
  then have eq: "own (cleanupOldNotified parse now notified R) =
           filter (\<lambda>(k, v). retained parse now R v) (own notified)"
    unfolding t same by simp
  have pr: "proto (cleanupOldNotified parse now notified R) = None"
    unfolding t
    using cleanup_loop_proto [OF assms(2), of parse cutoff "\<lparr>own = [], proto = None\<rparr>"]
    by simp
  have "map_of (filter (\<lambda>(k, v). retained parse now R v) xs) k =
           (case map_of xs k of
              None \<Rightarrow> None
            | Some v \<Rightarrow> if retained parse now R v then Some v else None)"
    if "distinct (map fst xs)" for k and xs :: ledger
    using that
    by (induction xs) (auto split: option.splits simp: map_of_eq_None_iff image_iff)
  then have m: "\<forall>k. map_of (own (cleanupOldNotified parse now notified R)) k =
               (case map_of (own notified) k of
                  None \<Rightarrow> None
                | Some v \<Rightarrow> if retained parse now R v then Some v else None)"
    unfolding eq using assms(1) by blast
  have u: "\<forall>k v. resolved_time parse v = None \<longrightarrow>
               (k, v) \<notin> set (own (cleanupOldNotified parse now notified R))"
    unfolding eq by (simp add: retained_def)
  have c: "fst (cleanupOldNotified_call os notified R s) =
             cleanupOldNotified (dateParse os) (fst (dateNow os (world s))) notified R"
    "snd (cleanupOldNotified_call os notified R s) = snd (readClock os s)"
    by (simp_all add: cleanupOldNotified_call_def readClock_def split: prod.splits)
  have o: "out (snd (cleanupOldNotified_call os notified R s)) = out s"
    unfolding c(2) by (simp add: readClock_def split: prod.splits)
  from eq pr m u c o show ?thesis
    by blast
qed

theorem cleanupOldNotified_exact_witness:
  "distinct (map fst ex_ledger) \<and> ''__proto__'' \<notin> fst ` set ex_ledger
   \<and> own (cleanupOldNotified ex_parse 864000000 \<lparr>own = ex_ledger, proto = None\<rparr> 7) =
       [(''o/r#1'', \<lparr>at = Some ''1970-01-10T00:00:00.000Z'', notifiedAt = None, title = ''one'',
                     other = []\<rparr>),
        (''o/r#3'', \<lparr>at = None, notifiedAt = Some ''1970-01-10T00:00:00.000Z'', title = ''three'',
                     other = [(''updatedAt'', JStr ''1970-01-09T00:00:00.000Z'')]\<rparr>)]
   \<and> out (snd (cleanupOldNotified_call (ex_os []) \<lparr>own = ex_ledger, proto = None\<rparr> 7
                  \<lparr>world = 1, out = [Log (Started ''1970-01-11T00:00:00.000Z'')]\<rparr>)) =
       [Log (Started ''1970-01-11T00:00:00.000Z'')]"
proof -
  have d: "distinct (map fst (own \<lparr>own = ex_ledger, proto = None\<rparr>))"
    "''__proto__'' \<notin> fst ` set (own \<lparr>own = ex_ledger, proto = None\<rparr>)"
    by (simp_all add: ex_ledger_def)
  note t = cleanupOldNotified_exact [OF d, of ex_parse 864000000 7 "ex_os []"
        "\<lparr>world = 1, out = [Log (Started ''1970-01-11T00:00:00.000Z'')]\<rparr>"]
  from t have "own (cleanupOldNotified ex_parse 864000000 \<lparr>own = ex_ledger, proto = None\<rparr> 7) =
      filter (\<lambda>(k, v). retained ex_parse 864000000 7 v) (own \<lparr>own = ex_ledger, proto = None\<rparr>)"
    by (elim conjE) assumption
  moreover from t
  have "out (snd (cleanupOldNotified_call (ex_os []) \<lparr>own = ex_ledger, proto = None\<rparr> 7
                  \<lparr>world = 1, out = [Log (Started ''1970-01-11T00:00:00.000Z'')]\<rparr>)) =
       out \<lparr>world = 1::nat, out = [Log (Started ''1970-01-11T00:00:00.000Z'')]\<rparr>"
    by (elim conjE) assumption
  ultimately show ?thesis
    using d
    by (simp add: ex_ledger_def ex_parse_def retained_def resolved_time_def
        resolved_timestamp_def)
qed

text \<open>
  C3. Pruning is idempotent: pruning the pruned ledger again, with the same retention and
  the same clock reading, returns the same entries, each under its key and in the same
  order. The object returned is the pruned ledger itself, but that it inherits nothing; so
  it is the pruned ledger itself when the ledger pruned first has no entry under the name
  \<^verbatim>\<open>__proto__\<close>.
\<close>

theorem cleanupOldNotified_idempotent:
  "own (cleanupOldNotified parse now (cleanupOldNotified parse now notified R) R) =
     own (cleanupOldNotified parse now notified R)
   \<and> cleanupOldNotified parse now (cleanupOldNotified parse now notified R) R =
       (cleanupOldNotified parse now notified R)\<lparr>proto := None\<rparr>
   \<and> (''__proto__'' \<notin> fst ` set (own notified) \<longrightarrow>
        cleanupOldNotified parse now (cleanupOldNotified parse now notified R) R =
          cleanupOldNotified parse now notified R)"
proof -
  define cutoff where "cutoff = now - R * 24 * 60 * 60 * 1000"
  define once where "once = cleanupOldNotified parse now notified R"
  define twice where "twice = cleanupOldNotified parse now once R"
  have i: "distinct (map fst (own once))" "''__proto__'' \<notin> fst ` set (own once)"
    "\<forall>(k, v) \<in> set (own once). keeps parse cutoff v"
    unfolding once_def cutoff_def using cleanupOldNotified_invariant [of parse now notified R]
    by blast+
  have t: "twice = cleanup_loop parse cutoff (own once) \<lparr>own = [], proto = None\<rparr>"
    by (simp add: twice_def cleanupOldNotified_def cutoff_def)
  have "own twice = own \<lparr>own = [], proto = None\<rparr>
          @ filter (\<lambda>(k, v). k \<noteq> ''__proto__'' \<and> keeps parse cutoff v) (own once)"
    unfolding t by (rule cleanup_loop_own) (simp_all add: i)
  also have "\<dots> = own once"
    using i(2,3) by (force simp add: filter_id_conv)
  finally have o: "own twice = own once" .
  have p: "proto twice = None"
    unfolding t using cleanup_loop_proto [OF i(2), of parse cutoff "\<lparr>own = [], proto = None\<rparr>"]
    by simp
  from o p have e: "twice = once\<lparr>proto := None\<rparr>"
    by (intro ledger_object.equality) simp_all
  have "once\<lparr>proto := None\<rparr> = once" if "''__proto__'' \<notin> fst ` set (own notified)"
  proof -
    have "proto once = None"
      unfolding once_def cleanupOldNotified_def Let_def
      using cleanup_loop_proto [OF that] by simp
    then show ?thesis
      by simp
  qed
  with o e show ?thesis
    by (simp add: once_def twice_def)
qed

theorem cleanupOldNotified_idempotent_witness:
  "''__proto__'' \<notin> fst ` set (own \<lparr>own = ex_ledger, proto = None\<rparr>)
   \<and> cleanupOldNotified ex_parse 864000000
         (cleanupOldNotified ex_parse 864000000 \<lparr>own = ex_ledger, proto = None\<rparr> 7) 7 =
       \<lparr>own =
          [(''o/r#1'', \<lparr>at = Some ''1970-01-10T00:00:00.000Z'', notifiedAt = None,
                        title = ''one'', other = []\<rparr>),
           (''o/r#3'', \<lparr>at = None, notifiedAt = Some ''1970-01-10T00:00:00.000Z'',
                        title = ''three'',
                        other = [(''updatedAt'', JStr ''1970-01-09T00:00:00.000Z'')]\<rparr>)],
        proto = None\<rparr>
   \<and> own (cleanupOldNotified ex_parse 864000000
            (cleanupOldNotified ex_parse 864000000 \<lparr>own = ex_proto_ledger, proto = None\<rparr> 7)
            7) =
       [(''o/r#1'', \<lparr>at = Some ''1970-01-10T00:00:00.000Z'', notifiedAt = None, title = ''one'',
                     other = []\<rparr>)]"
proof -
  have h: "''__proto__'' \<notin> fst ` set (own \<lparr>own = ex_ledger, proto = None\<rparr>)"
    by (simp add: ex_ledger_def)
  have once: "cleanupOldNotified ex_parse 864000000 \<lparr>own = ex_ledger, proto = None\<rparr> 7 =
       \<lparr>own =
          [(''o/r#1'', \<lparr>at = Some ''1970-01-10T00:00:00.000Z'', notifiedAt = None,
                        title = ''one'', other = []\<rparr>),
           (''o/r#3'', \<lparr>at = None, notifiedAt = Some ''1970-01-10T00:00:00.000Z'',
                        title = ''three'',
                        other = [(''updatedAt'', JStr ''1970-01-09T00:00:00.000Z'')]\<rparr>)],
        proto = None\<rparr>"
    by (simp add: cleanupOldNotified_def ex_ledger_def ex_parse_def keeps_def js_or_def
        truthy_def assign_def)
  from cleanupOldNotified_idempotent [of ex_parse 864000000 "\<lparr>own = ex_ledger, proto = None\<rparr>" 7]
    h
  have a: "cleanupOldNotified ex_parse 864000000
         (cleanupOldNotified ex_parse 864000000 \<lparr>own = ex_ledger, proto = None\<rparr> 7) 7 =
       cleanupOldNotified ex_parse 864000000 \<lparr>own = ex_ledger, proto = None\<rparr> 7"
    by blast
  from cleanupOldNotified_idempotent [of ex_parse 864000000
      "\<lparr>own = ex_proto_ledger, proto = None\<rparr>" 7]
  have b: "own (cleanupOldNotified ex_parse 864000000
            (cleanupOldNotified ex_parse 864000000 \<lparr>own = ex_proto_ledger, proto = None\<rparr> 7)
            7) =
       own (cleanupOldNotified ex_parse 864000000 \<lparr>own = ex_proto_ledger, proto = None\<rparr> 7)"
    by blast
  show ?thesis
    using h a b by (simp add: once ex_proto_pruned(1))
qed

section \<open>What a run does\<close>

lemma launched_append [simp]: "launched (a @ b) = launched a @ launched b"
  by (induction a rule: launched.induct) auto

lemma attempted_append [simp]: "attempted (a @ b) = attempted a @ attempted b"
  by (induction a rule: attempted.induct) auto

lemma notifications_append [simp]: "notifications (a @ b) = notifications a @ notifications b"
  by (induction a rule: notifications.induct) auto

lemma writes_append [simp]: "writes (a @ b) = writes a @ writes b"
  by (induction a rule: writes.induct) auto

lemma out_log [simp]: "out (log m s) = out s @ [Log m]"
  by (simp add: log_def)

lemma out_logError [simp]: "out (logError m s) = out s @ [LogError m]"
  by (simp add: logError_def)

lemma out_saveNotified [simp]: "out (saveNotified d s) = out s @ [WriteNotified (own d)]"
  by (simp add: saveNotified_def)

lemma out_sendNotification [simp]: "out (sendNotification ttl n s) = out s @ [ExecNotify ttl n]"
  by (simp add: sendNotification_def)

lemma out_readClock [simp]: "out (snd (readClock os s)) = out s"
  by (simp add: readClock_def split: prod.splits)

lemma openTab_dry [simp]: "openTab os True u s = (True, log (WouldOpen u) s)"
  by (simp add: openTab_def)

text \<open>What one call of \<^verbatim>\<open>openTab\<close> adds to what the run did.\<close>

lemma out_openTab:
  "launched (out (snd (openTab os d u s))) = launched (out s) @ (if d then [] else [u])"
  "attempted (out (snd (openTab os d u s))) = attempted (out s) @ [u]"
  "notifications (out (snd (openTab os d u s))) = notifications (out s)"
  "writes (out (snd (openTab os d u s))) = writes (out s)"
  by (simp_all add: openTab_def Let_def split: prod.splits)

text \<open>What the loop adds to it: a call of \<^verbatim>\<open>openTab\<close> for each PR, and nothing else.\<close>

lemma out_open_loop:
  "launched (out (snd (open_loop os d ps n s))) =
     launched (out s) @ (if d then [] else map url ps)
   \<and> attempted (out (snd (open_loop os d ps n s))) = attempted (out s) @ map url ps
   \<and> notifications (out (snd (open_loop os d ps n s))) = notifications (out s)
   \<and> writes (out (snd (open_loop os d ps n s))) = writes (out s)"
proof (induction ps arbitrary: n s)
  case Nil
  then show ?case by simp
next
  case (Cons p ps)
  obtain ok s1 where o: "openTab os d (url p) s = (ok, s1)" by (cases "openTab os d (url p) s")
  obtain t s2 where r: "readClock os s1 = (t, s2)" by (cases "readClock os s1")
  have s1: "launched (out s1) = launched (out s) @ (if d then [] else [url p])"
    "attempted (out s1) = attempted (out s) @ [url p]"
    "notifications (out s1) = notifications (out s)"
    "writes (out s1) = writes (out s)"
    using out_openTab [of os d "url p" s] o by simp_all
  have s2: "out s2 = out s1"
    using out_readClock [of os s1] r by simp
  show ?case
  proof (cases ok)
    case True
    with o r show ?thesis
      using Cons.IH [of _ s2] by (simp add: s1 s2)
  next
    case False
    with o show ?thesis
      using Cons.IH [of n s1] by (simp add: s1)
  qed
qed

lemma open_loop_attempts:
  "fst (open_loop os d ps n s) = foldl (record_attempt os) n (attempts os d ps s)"
proof (induction ps arbitrary: n s)
  case Nil
  then show ?case by simp
next
  case (Cons p ps)
  obtain ok s1 where o: "openTab os d (url p) s = (ok, s1)" by (cases "openTab os d (url p) s")
  obtain t s2 where r: "readClock os s1 = (t, s2)" by (cases "readClock os s1")
  show ?case
    using o r by (cases ok) (simp_all add: Cons.IH new_entry_def)
qed

lemma map_fst_attempts: "map fst (attempts os d ps s) = ps"
proof (induction ps arbitrary: s)
  case Nil
  then show ?case by simp
next
  case (Cons p ps)
  obtain ok s1 where o: "openTab os d (url p) s = (ok, s1)" by (cases "openTab os d (url p) s")
  obtain t s2 where r: "readClock os s1 = (t, s2)" by (cases "readClock os s1")
  show ?case
    using o r by (cases ok) (simp_all add: Cons.IH)
qed

lemma attempts_dry: "(p, r) \<in> set (attempts os True ps s) \<Longrightarrow> r \<noteq> None"
proof (induction ps arbitrary: s)
  case Nil
  then show ?case by simp
next
  case (Cons q ps)
  obtain t s2 where r: "readClock os (log (WouldOpen (url q)) s) = (t, s2)"
    by (cases "readClock os (log (WouldOpen (url q)) s)")
  from Cons.prems r have "(p, r) = (q, Some t) \<or> (p, r) \<in> set (attempts os True ps s2)"
    by simp
  then show ?case using Cons.IH by auto
qed

text \<open>
  The loop assigns under identity keys only, so it changes own properties and leaves the
  prototype alone.
\<close>

lemma record_attempt_own:
  "own (record_attempt os n (p, r)) =
     (case r of Some t \<Rightarrow> AList.update (key p) (new_entry os t p) (own n) | None \<Rightarrow> own n)"
  "proto (record_attempt os n (p, r)) = proto n"
  by (cases r; simp add: assign_key)+

lemma map_of_foldl_record:
  "map_of (own (foldl (record_attempt os) n as)) k =
     (case last_success k as of
        Some (p, t) \<Rightarrow> Some (new_entry os t p)
      | None \<Rightarrow> map_of (own n) k)"
proof (induction as arbitrary: n)
  case Nil
  then show ?case by simp
next
  case (Cons a as)
  obtain p r where a: "a = (p, r)" by (cases a)
  show ?case
  proof (cases "last_success k as")
    case None
    then show ?thesis
      using a Cons.IH [of "record_attempt os n a"]
      by (cases r) (simp_all add: update_conv' assign_key)
  next
    case (Some x)
    then show ?thesis
      using a Cons.IH [of "record_attempt os n a"] by simp
  qed
qed

lemma proto_foldl_record: "proto (foldl (record_attempt os) n as) = proto n"
proof (induction as arbitrary: n)
  case Nil
  then show ?case by simp
next
  case (Cons a as)
  obtain p r where a: "a = (p, r)" by (cases a)
  with Cons.IH [of "record_attempt os n a"] show ?case
    by (simp add: record_attempt_own)
qed

lemma keys_foldl_record:
  "fst ` set (own (foldl (record_attempt os) n as)) \<subseteq> fst ` set (own n) \<union> key ` fst ` set as"
proof (induction as arbitrary: n)
  case Nil
  then show ?case by simp
next
  case (Cons a as)
  obtain p r where a: "a = (p, r)" by (cases a)
  have "fst ` set (own (record_attempt os n a)) \<subseteq> insert (key p) (fst ` set (own n))"
    unfolding a by (cases r) (auto simp add: assign_key dom_update)
  with Cons.IH [of "record_attempt os n a"] a show ?case
    by auto
qed

lemma main_unfold:
  "main os d cf nfile gh w =
     (if paused (loadConfig cf) then log Paused \<lparr>world = w, out = []\<rparr>
      else if fetched cf gh = []
      then log NoReviewRequests
             (saveNotified (pruned os cf nfile w)
                (log (Fetched 0)
                   (snd (fetchPRs gh (excludeDraft (loadConfig cf)) (snd (started os w))))))
      else
        (let s7 = snd (open_loop os d (selected os cf nfile gh w) (pruned os cf nfile w)
                         (loop_start os cf nfile gh w))
         in log Done
              (saveNotified (final_ledger os d cf nfile gh w)
                 (if selected os cf nfile gh w \<noteq> [] \<and> enableNotification (loadConfig cf)
                  then sendNotification ''PR Opener'' (length (selected os cf nfile gh w)) s7
                  else s7))))"
proof -
  obtain t0 s1 where a: "readClock os \<lparr>world = w, out = []\<rparr> = (t0, s1)"
    by (cases "readClock os \<lparr>world = w, out = []\<rparr>")
  obtain t1 s3 where b: "readClock os (log (Started (toISOString os t0)) s1) = (t1, s3)"
    by (cases "readClock os (log (Started (toISOString os t0)) s1)")
  have st: "started os w = (t1, s3)"
    by (simp add: started_def a b)
  obtain prs s4 where c: "fetchPRs gh (excludeDraft (loadConfig cf)) s3 = (prs, s4)"
    by (cases "fetchPRs gh (excludeDraft (loadConfig cf)) s3")
  have prs: "prs = fetched cf gh"
    using c by (auto simp add: fetchPRs_def fetched_def split: option.splits)
  have pr: "pruned os cf nfile w =
          cleanupOldNotified (dateParse os) t1 (loadNotified nfile)
            (notifiedRetentionDays (loadConfig cf))"
    by (simp add: pruned_def st)
  have cc: "cleanupOldNotified_call os (loadNotified nfile) (notifiedRetentionDays (loadConfig cf))
              (log (Started (toISOString os t0)) s1) =
            (cleanupOldNotified (dateParse os) t1 (loadNotified nfile)
               (notifiedRetentionDays (loadConfig cf)), s3)"
    by (simp add: cleanupOldNotified_call_def b)
  have ls: "loop_start os cf nfile gh w =
          log (New (length (selected os cf nfile gh w))) (log (Fetched (length prs)) s4)"
    by (simp add: loop_start_def st c prs)
  obtain n s7 where d: "open_loop os d (selected os cf nfile gh w) (pruned os cf nfile w)
                          (loop_start os cf nfile gh w) = (n, s7)"
    by (cases "open_loop os d (selected os cf nfile gh w) (pruned os cf nfile w)
                 (loop_start os cf nfile gh w)")
  have d': "open_loop os d
              (newPRs (cleanupOldNotified (dateParse os) t1 (loadNotified nfile)
                         (notifiedRetentionDays (loadConfig cf)))
                 prs (maxTabsToOpen (loadConfig cf)))
              (cleanupOldNotified (dateParse os) t1 (loadNotified nfile)
                 (notifiedRetentionDays (loadConfig cf)))
              (log (New (length (newPRs (cleanupOldNotified (dateParse os) t1 (loadNotified nfile)
                                           (notifiedRetentionDays (loadConfig cf)))
                                   prs (maxTabsToOpen (loadConfig cf)))))
                 (log (Fetched (length prs)) s4)) = (n, s7)"
    using d unfolding ls unfolding selected_def pr prs by simp
  show ?thesis
  proof (cases "paused (loadConfig cf)")
    case True
    then show ?thesis by (simp add: main_def Let_def)
  next
    case False
    show ?thesis
    proof (cases "prs = []")
      case True
      with False show ?thesis
        using a cc c prs pr st by (simp add: main_def Let_def)
    next
      case ne: False
      have "main os d cf nfile gh w =
              log Done (saveNotified n
                (if length (selected os cf nfile gh w) > 0 \<and> enableNotification (loadConfig cf)
                 then sendNotification ''PR Opener'' (length (selected os cf nfile gh w)) s7
                 else s7))"
        using False ne a cc c d' unfolding main_def Let_def selected_def pr prs [symmetric]
        by simp
      then show ?thesis
        using False ne prs d by (simp add: final_ledger_def Let_def)
    qed
  qed
qed

lemma slice_nonneg: "0 \<le> m \<Longrightarrow> slice xs 0 m = take (nat m) xs"
  by (simp add: slice_def Let_def min_def)

lemma slice_neg: "m < 0 \<Longrightarrow> slice xs 0 m = take (length xs - nat (- m)) xs"
proof -
  assume m: "m < 0"
  have "nat (max (int (length xs) + m) 0) = length xs - nat (- m)"
    using m by (simp add: max_def nat_diff_distrib') linarith
  with m show ?thesis
    by (simp add: slice_def Let_def)
qed

lemma set_slice: "set (slice xs a b) \<subseteq> set xs"
proof -
  have "set (take n (drop k xs)) \<subseteq> set xs" for n k
    using set_take_subset [of n "drop k xs"] set_drop_subset [of k xs] by blast
  then show ?thesis
    by (simp add: slice_def Let_def)
qed

lemma set_newPRs:
  "p \<in> set (newPRs notified prs m) \<Longrightarrow> p \<in> set prs \<and> \<not> truthy_at notified (key p)"
proof -
  assume "p \<in> set (newPRs notified prs m)"
  then have "p \<in> set (filter (\<lambda>p. \<not> truthy_at notified (key p)) prs)"
    using set_slice [of "filter (\<lambda>p. \<not> truthy_at notified (key p)) prs" 0 m]
    by (auto simp add: newPRs_def)
  then show ?thesis
    by simp
qed

lemma selected_fetched_empty: "fetched cf gh = [] \<Longrightarrow> selected os cf nfile gh w = []"
  by (simp add: selected_def newPRs_def slice_def)

lemma quiet_fetchPRs:
  "launched (out (snd (fetchPRs gh b s))) = launched (out s)"
  "attempted (out (snd (fetchPRs gh b s))) = attempted (out s)"
  "notifications (out (snd (fetchPRs gh b s))) = notifications (out s)"
  "writes (out (snd (fetchPRs gh b s))) = writes (out s)"
  by (simp_all add: fetchPRs_def split: option.splits)

lemma out_started:
  "out (snd (started os w)) = [Log (Started (toISOString os (fst (dateNow os w))))]"
  by (simp add: started_def readClock_def split: prod.splits)

lemma quiet_loop_start:
  "launched (out (loop_start os cf nfile gh w)) = []"
  "attempted (out (loop_start os cf nfile gh w)) = []"
  "notifications (out (loop_start os cf nfile gh w)) = []"
  "writes (out (loop_start os cf nfile gh w)) = []"
  by (simp_all add: loop_start_def quiet_fetchPRs out_started)

lemma launched_main:
  "launched (out (main os d cf nfile gh w)) =
     (if paused (loadConfig cf) \<or> d then [] else map url (selected os cf nfile gh w))"
  unfolding main_unfold
  by (simp add: Let_def out_open_loop quiet_loop_start quiet_fetchPRs out_started
      selected_fetched_empty)

lemma attempted_main:
  "attempted (out (main os d cf nfile gh w)) =
     (if paused (loadConfig cf) then [] else map url (selected os cf nfile gh w))"
  unfolding main_unfold
  by (simp add: Let_def out_open_loop quiet_loop_start quiet_fetchPRs out_started
      selected_fetched_empty)

lemma notifications_main:
  "notifications (out (main os d cf nfile gh w)) =
     (if \<not> paused (loadConfig cf) \<and> selected os cf nfile gh w \<noteq> []
         \<and> enableNotification (loadConfig cf)
      then [(''PR Opener'', length (selected os cf nfile gh w))] else [])"
  unfolding main_unfold
  by (simp add: Let_def out_open_loop quiet_loop_start quiet_fetchPRs out_started
      selected_fetched_empty)

lemma writes_main:
  "writes (out (main os d cf nfile gh w)) =
     (if paused (loadConfig cf) then []
      else if fetched cf gh = [] then [own (pruned os cf nfile w)]
      else [own (final_ledger os d cf nfile gh w)])"
  unfolding main_unfold
  by (simp add: Let_def out_open_loop quiet_loop_start quiet_fetchPRs out_started)

lemma last_success_None_iff:
  "last_success k as = None \<longleftrightarrow> (\<forall>(p, r) \<in> set as. key p = k \<longrightarrow> r = None)"
  by (induction as) (auto split: option.splits)

lemma last_success_SomeD:
  "last_success k as = Some (q, t) \<Longrightarrow> (q, Some t) \<in> set as \<and> key q = k"
  by (induction as) (auto split: option.splits if_splits)

lemma last_success_member:
  "(p, Some t) \<in> set as \<Longrightarrow>
   \<exists>q t'. last_success (key p) as = Some (q, t') \<and> key q = key p \<and> (q, Some t') \<in> set as"
proof -
  assume m: "(p, Some t) \<in> set as"
  have "last_success (key p) as \<noteq> None"
    using m by (auto simp add: last_success_None_iff)
  then obtain q t' where "last_success (key p) as = Some (q, t')"
    by (cases "last_success (key p) as") auto
  with last_success_SomeD [of "key p" as q t'] show ?thesis
    by simp
qed

lemma last_success_unique:
  "distinct (map (\<lambda>a. key (fst a)) as) \<Longrightarrow> (p, r) \<in> set as \<Longrightarrow>
   last_success (key p) as = (case r of Some t \<Rightarrow> Some (p, t) | None \<Rightarrow> None)"
proof (induction as)
  case Nil
  then show ?case by simp
next
  case (Cons a as)
  obtain q r' where a: "a = (q, r')" by (cases a)
  show ?case
  proof (cases "(p, r) \<in> set as")
    case True
    with Cons.prems a have ne: "key q \<noteq> key p"
      by (auto simp add: image_iff)
    from Cons.IH True Cons.prems
    have ih: "last_success (key p) as = (case r of Some t \<Rightarrow> Some (p, t) | None \<Rightarrow> None)"
      by simp
    show ?thesis
      using a ne ih by (cases r) (simp_all split: option.splits)
  next
    case False
    with Cons.prems a have eq: "q = p" "r' = r" by auto
    from Cons.prems a eq have "\<forall>(p', r'') \<in> set as. key p' \<noteq> key p"
      by (auto simp add: image_iff)
    then have "last_success (key p) as = None"
      by (auto simp add: last_success_None_iff)
    then show ?thesis
      using a eq by (cases r) simp_all
  qed
qed

lemma last_success_last:
  "j < length as \<Longrightarrow> as ! j = (q, Some t) \<Longrightarrow>
   (\<forall>l. j < l \<and> l < length as \<and> key (fst (as ! l)) = key q \<longrightarrow> snd (as ! l) = None) \<Longrightarrow>
   last_success (key q) as = Some (q, t)"
proof (induction as arbitrary: j)
  case Nil
  then show ?case by simp
next
  case (Cons a as)
  obtain p r where a: "a = (p, r)" by (cases a)
  show ?case
  proof (cases j)
    case 0
    have "\<forall>(p', r') \<in> set as. key p' = key q \<longrightarrow> r' = None"
    proof (clarify)
      fix p' r'
      assume m: "(p', r') \<in> set as" and k: "key p' = key q"
      then obtain l where l: "l < length as" "as ! l = (p', r')"
        by (auto simp add: in_set_conv_nth)
      with Cons.prems(3) [rule_format, of "Suc l"] 0 k show "r' = None"
        by simp
    qed
    then have "last_success (key q) as = None"
      by (simp add: last_success_None_iff)
    with Cons.prems(2) 0 a show ?thesis
      by simp
  next
    case (Suc j')
    have "\<forall>l. j' < l \<and> l < length as \<and> key (fst (as ! l)) = key q \<longrightarrow> snd (as ! l) = None"
    proof (intro allI impI)
      fix l
      assume "j' < l \<and> l < length as \<and> key (fst (as ! l)) = key q"
      with Cons.prems(3) [rule_format, of "Suc l"] Suc show "snd (as ! l) = None"
        by simp
    qed
    with Cons.IH [of j'] Cons.prems(1,2) Suc
    have "last_success (key q) as = Some (q, t)"
      by simp
    then show ?thesis
      using a by simp
  qed
qed

lemma last_success_alone:
  assumes m: "(p, r) \<in> set as"
    and alone: "\<forall>(q, r') \<in> set as. key q = key p \<longrightarrow> (q, r') = (p, r)"
  shows "last_success (key p) as = (case r of Some t \<Rightarrow> Some (p, t) | None \<Rightarrow> None)"
proof (cases r)
  case None
  with alone have "\<forall>(q, r') \<in> set as. key q = key p \<longrightarrow> r' = None"
    by auto
  with None show ?thesis
    by (simp add: last_success_None_iff)
next
  case (Some t)
  with m last_success_member [of p t as]
  obtain q t' where q: "last_success (key p) as = Some (q, t')" "key q = key p"
    "(q, Some t') \<in> set as"
    by blast
  with alone Some have "(q, Some t') = (p, Some t)"
    by auto
  with q(1) Some show ?thesis
    by simp
qed

lemma readClock_world:
  "fst (readClock os s) = fst (dateNow os (world s))"
  "world (snd (readClock os s)) = snd (dateNow os (world s))"
  by (simp_all add: readClock_def split: prod.splits)

lemma open_loop_dry_as_real:
  assumes ok: "\<forall>u w'. execOpen os u w' = (True, w')"
  shows "world s = world s' \<Longrightarrow>
         fst (open_loop os True ps n s) = fst (open_loop os False ps n s')"
proof (induction ps arbitrary: n s s')
  case Nil
  then show ?case by simp
next
  case (Cons p ps)
  obtain s1 where dry: "openTab os True (url p) s = (True, s1)" "world s1 = world s"
    by (simp add: log_def)
  obtain s1' where real: "openTab os False (url p) s' = (True, s1')" "world s1' = world s'"
    using ok by (simp add: openTab_def log_def Let_def)
  obtain t s2 where r: "readClock os s1 = (t, s2)" by (cases "readClock os s1")
  obtain t' s2' where r': "readClock os s1' = (t', s2')" by (cases "readClock os s1'")
  have w: "world s1 = world s1'"
    using dry(2) real(2) Cons.prems by simp
  have "t = t'" "world s2 = world s2'"
    using readClock_world [of os s1] readClock_world [of os s1'] r r' w by simp_all
  with Cons.IH [of s2 s2'] dry(1) real(1) r r' show ?case
    by simp
qed

lemma attempts_world:
  "world s = world s' \<Longrightarrow> attempts os d ps s = attempts os d ps s'"
proof (induction ps arbitrary: s s')
  case Nil
  then show ?case by simp
next
  case (Cons p ps)
  obtain ok s1 where o: "openTab os d (url p) s = (ok, s1)" by (cases "openTab os d (url p) s")
  obtain ok' s1' where o': "openTab os d (url p) s' = (ok', s1')"
    by (cases "openTab os d (url p) s'")
  have same: "ok = ok'" "world s1 = world s1'"
    using o o' Cons.prems
    by (auto simp add: openTab_def log_def logError_def Let_def split: prod.splits if_splits)
  obtain t s2 where r: "readClock os s1 = (t, s2)" by (cases "readClock os s1")
  obtain t' s2' where r': "readClock os s1' = (t', s2')" by (cases "readClock os s1'")
  have "t = t'" "world s2 = world s2'"
    using readClock_world [of os s1] readClock_world [of os s1'] r r' same(2) by simp_all
  with Cons.IH [of s2 s2'] Cons.IH [of s1 s1'] o o' r r' same show ?case
    by (cases ok) simp_all
qed

lemma final_ledger_map_of:
  "map_of (own (final_ledger os d cf nfile gh w)) k =
     (case last_success k (run_attempts os d cf nfile gh w) of
        Some (p, t) \<Rightarrow> Some (new_entry os t p)
      | None \<Rightarrow> map_of (own (pruned os cf nfile w)) k)"
  by (simp add: final_ledger_def run_attempts_def open_loop_attempts map_of_foldl_record)

text \<open>The pruned ledger of a run owns each key once and no property \<^verbatim>\<open>__proto__\<close>.\<close>

lemma pruned_invariant:
  "distinct (map fst (own (pruned os cf nfile w)))"
  "''__proto__'' \<notin> fst ` set (own (pruned os cf nfile w))"
  unfolding pruned_def
  using cleanupOldNotified_invariant [of "dateParse os" "fst (started os w)" "loadNotified nfile"
      "notifiedRetentionDays (loadConfig cf)"]
  by blast+

text \<open>It inherits nothing when the file has no entry under \<^verbatim>\<open>__proto__\<close>.\<close>

lemma pruned_proto:
  "''__proto__'' \<notin> fst ` set (own (loadNotified nfile)) \<Longrightarrow> proto (pruned os cf nfile w) = None"
  unfolding pruned_def cleanupOldNotified_def Let_def
  by (simp add: cleanup_loop_proto)

lemma truthy_at_pruned:
  "''__proto__'' \<notin> fst ` set (own (loadNotified nfile)) \<Longrightarrow>
   truthy_at (pruned os cf nfile w) (key p) = (key p \<in> fst ` set (own (pruned os cf nfile w)))"
  by (simp add: truthy_at_key_plain pruned_proto)

text \<open>Neither does the ledger after the loop own a property \<^verbatim>\<open>__proto__\<close>.\<close>

lemma final_ledger_no_proto_key:
  "''__proto__'' \<notin> fst ` set (own (final_ledger os d cf nfile gh w))"
proof
  assume "''__proto__'' \<in> fst ` set (own (final_ledger os d cf nfile gh w))"
  with keys_foldl_record [of os "pruned os cf nfile w"
      "attempts os d (selected os cf nfile gh w) (loop_start os cf nfile gh w)"]
  have "''__proto__'' \<in> fst ` set (own (pruned os cf nfile w))
        \<or> ''__proto__'' \<in> key ` fst ` set (attempts os d (selected os cf nfile gh w)
                                              (loop_start os cf nfile gh w))"
    unfolding final_ledger_def open_loop_attempts by blast
  then show False
    using pruned_invariant(2) [of os cf nfile w] key_not_special(1) by force
qed

text \<open>
  So a later run that loads what this run wrote finds a key truthy only if the written
  ledger has it.
\<close>

lemma later_run_absent:
  assumes "map_of (own (final_ledger os d cf nfile gh w)) (key p) = None"
  shows "\<not> truthy_at (pruned os' cf' (Content (own (final_ledger os d cf nfile gh w))) w') (key p)"
proof -
  let ?file = "Content (own (final_ledger os d cf nfile gh w))"
  have "''__proto__'' \<notin> fst ` set (own (loadNotified ?file))"
    using final_ledger_no_proto_key [of os d cf nfile gh w] by (simp add: loadNotified_def)
  then have "truthy_at (pruned os' cf' ?file w') (key p) =
               (key p \<in> fst ` set (own (pruned os' cf' ?file w')))"
    by (rule truthy_at_pruned)
  moreover have "map_of (own (pruned os' cf' ?file w')) (key p) = None"
    unfolding pruned_def using assms by (simp add: loadNotified_def cleanupOldNotified_absent)
  ultimately show ?thesis
    by (simp add: map_of_eq_None_iff)
qed

lemma run_attempts_selected:
  "(p, r) \<in> set (run_attempts os d cf nfile gh w) \<Longrightarrow> p \<in> set (selected os cf nfile gh w)"
proof -
  assume "(p, r) \<in> set (run_attempts os d cf nfile gh w)"
  then have "fst (p, r) \<in> set (map fst (run_attempts os d cf nfile gh w))"
    by (metis in_set_conv_nth length_map nth_map)
  then show ?thesis
    by (simp add: run_attempts_def map_fst_attempts)
qed

lemma selected_not_truthy:
  "p \<in> set (selected os cf nfile gh w) \<Longrightarrow> \<not> truthy_at (pruned os cf nfile w) (key p)"
  unfolding selected_def using set_newPRs [of p] by simp

lemma selected_absent:
  "p \<in> set (selected os cf nfile gh w) \<Longrightarrow> map_of (own (pruned os cf nfile w)) (key p) = None"
  using selected_not_truthy [of p os cf nfile gh w] truthy_at_own [of "key p" "pruned os cf nfile w"]
  by (auto simp add: map_of_eq_None_iff)

lemma filter_key_passes:
  "\<not> truthy_at notified k \<Longrightarrow>
   filter (\<lambda>p. key p = k) (filter (\<lambda>p. \<not> truthy_at notified (key p)) prs) =
   filter (\<lambda>p. key p = k) prs"
  by (induction prs) auto

lemma filter_key_absent:
  "proto notified = None \<Longrightarrow> map_of (own notified) k = None \<Longrightarrow>
   filter (\<lambda>p. key p = k) (filter (\<lambda>p. \<not> truthy_at notified (key p)) prs) =
   filter (\<lambda>p. key p = k) prs"
  by (induction prs) (auto simp add: truthy_at_key_plain map_of_eq_None_iff)

text \<open>A launch that always succeeds makes every call of \<^verbatim>\<open>openTab\<close> return true.\<close>

lemma attempts_all_launched:
  assumes ok: "\<forall>u w'. fst (execOpen os u w')"
  shows "(p, r) \<in> set (attempts os False ps s) \<Longrightarrow> r \<noteq> None"
proof (induction ps arbitrary: s)
  case Nil
  then show ?case by simp
next
  case (Cons q ps)
  obtain b s1 where o: "openTab os False (url q) s = (b, s1)"
    by (cases "openTab os False (url q) s")
  have b: "b"
    using o ok [rule_format, of "url q" "world s"]
    by (auto simp add: openTab_def Let_def split: prod.splits if_splits)
  obtain t s2 where r: "readClock os s1 = (t, s2)" by (cases "readClock os s1")
  from Cons.prems o b r have "(p, r) = (q, Some t) \<or> (p, r) \<in> set (attempts os False ps s2)"
    by simp
  then show ?case using Cons.IH by auto
qed

lemma opened_count_all:
  "(\<forall>(p, r) \<in> set as. r \<noteq> None) \<Longrightarrow> opened_count as = length as"
  by (induction as) (auto simp add: opened_count_def)

text \<open>The tabs opened are the calls of \<^verbatim>\<open>openTab\<close> that returned true in a run that launches.\<close>

lemma opened_append [simp]: "opened (a @ b) = opened a @ opened b"
  by (induction a rule: opened.induct) auto

lemma opened_open_loop_dry:
  "opened (out (snd (open_loop os True ps n s))) = opened (out s)"
proof (induction ps arbitrary: n s)
  case Nil
  then show ?case by simp
next
  case (Cons p ps)
  obtain t s2 where r: "readClock os (log (WouldOpen (url p)) s) = (t, s2)"
    by (cases "readClock os (log (WouldOpen (url p)) s)")
  have "out s2 = out (log (WouldOpen (url p)) s)"
    using out_readClock [of os "log (WouldOpen (url p)) s"] r by simp
  with r show ?case
    using Cons.IH [of _ s2] by simp
qed

lemma opened_open_loop:
  "opened (out (snd (open_loop os False ps n s))) =
     opened (out s)
     @ map (\<lambda>(p, r). url p) (filter (\<lambda>(p, r). r \<noteq> None) (attempts os False ps s))"
proof (induction ps arbitrary: n s)
  case Nil
  then show ?case by simp
next
  case (Cons p ps)
  obtain ok s1 where o: "openTab os False (url p) s = (ok, s1)"
    by (cases "openTab os False (url p) s")
  obtain t s2 where r: "readClock os s1 = (t, s2)" by (cases "readClock os s1")
  have s1: "opened (out s1) = opened (out s) @ (if ok then [url p] else [])"
    using o by (auto simp add: openTab_def Let_def log_def logError_def split: prod.splits if_splits)
  have s2: "out s2 = out s1"
    using out_readClock [of os s1] r by simp
  show ?case
  proof (cases ok)
    case True
    with o r show ?thesis
      using Cons.IH [of _ s2] by (simp add: s1 s2)
  next
    case False
    with o show ?thesis
      using Cons.IH [of n s1] by (simp add: s1)
  qed
qed

lemma opened_main:
  "opened (out (main os d cf nfile gh w)) =
     (if paused (loadConfig cf) \<or> d then []
      else map (\<lambda>(p, r). url p)
             (filter (\<lambda>(p, r). r \<noteq> None) (run_attempts os d cf nfile gh w)))"
proof -
  have q: "opened (out (snd (fetchPRs gh b s))) = opened (out s)" for b and s :: "'a st"
    by (simp add: fetchPRs_def split: option.splits)
  have l: "opened (out (loop_start os cf nfile gh w)) = []"
    by (simp add: loop_start_def q out_started)
  have e: "run_attempts os d cf nfile gh w = []" if "fetched cf gh = []"
    using that by (simp add: run_attempts_def selected_fetched_empty)
  show ?thesis
  proof (cases d)
    case True
    then show ?thesis
      unfolding main_unfold
      by (simp add: Let_def opened_open_loop_dry l q out_started)
  next
    case False
    then show ?thesis
      unfolding main_unfold using e
      by (simp add: Let_def opened_open_loop l q out_started)
         (simp add: run_attempts_def)
  qed
qed

lemma length_opened_main:
  "\<not> paused (loadConfig cf) \<Longrightarrow>
   length (opened (out (main os False cf nfile gh w))) =
     opened_count (run_attempts os False cf nfile gh w)"
  by (simp add: opened_main opened_count_def)

lemma ex_loop_start_world: "world (loop_start (ex_os b) cf nfile gh 0) = 2"
  by (simp add: loop_start_def ex_started log_def fetchPRs_def logError_def split: option.splits)

lemma ex_run_attempts:
  "run_attempts (ex_os b) d cf nfile gh 0 =
     attempts (ex_os b) d (selected (ex_os b) cf nfile gh 0) \<lparr>world = 2, out = []\<rparr>"
  unfolding run_attempts_def
  by (rule attempts_world) (simp add: ex_loop_start_world)

lemma ex_twice_selected:
  "selected os None Missing ex_twice w =
     [ex_pr 7 ''https://github.com/o/r/pull/7'' ''seven'',
      ex_pr 7 ''https://github.com/o/r/pull/7'' ''seven, again'']"
  by (simp add: selected_def pruned_Missing fetched_def ex_twice_def newPRs_def slice_def
      ex_maxTabs truthy_at_key_plain)

lemma ex_new_selected:
  "selected (ex_os b) (Some (ex_config 2)) (Content ex_ledger) ex_new 0 =
     [ex_pr 7 ''https://github.com/o/r/pull/7'' ''seven'',
      ex_pr 2 ''https://github.com/o/r/pull/2'' ''two'']"
  unfolding selected_def ex_pruned [OF ex_retention(2)]
  by (simp add: newPRs_def fetched_def ex_new_def ex_keys slice_def ex_maxTabs
      truthy_at_key_plain)

lemma ex_flaky_loop_start_world: "world (loop_start (ex_flaky l) cf nfile gh 0) = 2"
  by (simp add: loop_start_def started_def readClock_def ex_flaky_def log_def fetchPRs_def
      logError_def split: option.splits)

lemma ex_flaky_run_attempts:
  "run_attempts (ex_flaky l) d cf nfile gh 0 =
     attempts (ex_flaky l) d (selected (ex_flaky l) cf nfile gh 0) \<lparr>world = 2, out = []\<rparr>"
  unfolding run_attempts_def
  by (rule attempts_world) (simp add: ex_flaky_loop_start_world)

section \<open>The claims about a run\<close>

text \<open>
  C1. In every run, a fetched PR whose identity key is a key of the pruned ledger is not
  among the selected PRs, whatever its title and \<open>updatedAt\<close>; every selected PR is a
  fetched one whose key is absent from the pruned ledger; \<^verbatim>\<open>openTab\<close> is called for the
  selected PRs, one after the other, and for no other, and the browser is launched on
  their URLs and on no other.
\<close>

theorem ledger_key_never_reopened:
  "(\<forall>p \<in> set (fetched cf gh).
      key p \<in> fst ` set (own (pruned os cf nfile w)) \<longrightarrow> p \<notin> set (selected os cf nfile gh w))
   \<and> (\<forall>p \<in> set (selected os cf nfile gh w).
        p \<in> set (fetched cf gh) \<and> key p \<notin> fst ` set (own (pruned os cf nfile w)))
   \<and> map fst (run_attempts os d cf nfile gh w) = selected os cf nfile gh w
   \<and> attempted (out (main os d cf nfile gh w)) =
        (if paused (loadConfig cf) then [] else map url (selected os cf nfile gh w))
   \<and> launched (out (main os d cf nfile gh w)) =
        (if paused (loadConfig cf) \<or> d then [] else map url (selected os cf nfile gh w))"
proof -
  have "p \<in> set (fetched cf gh) \<and> key p \<notin> fst ` set (own (pruned os cf nfile w))"
    if "p \<in> set (selected os cf nfile gh w)" for p
    using that set_newPRs [of p "pruned os cf nfile w" "fetched cf gh"]
      selected_absent [OF that]
    by (simp add: selected_def map_of_eq_None_iff)
  then have sel: "\<forall>p \<in> set (selected os cf nfile gh w).
        p \<in> set (fetched cf gh) \<and> key p \<notin> fst ` set (own (pruned os cf nfile w))"
    by blast
  then have "\<forall>p \<in> set (fetched cf gh).
      key p \<in> fst ` set (own (pruned os cf nfile w)) \<longrightarrow> p \<notin> set (selected os cf nfile gh w)"
    by blast
  with sel show ?thesis
    by (simp add: run_attempts_def map_fst_attempts launched_main attempted_main)
qed

theorem ledger_key_never_reopened_witness:
  "ex_pr 3 ''https://github.com/o/r/pull/3'' ''three, retitled'' \<in> set (fetched None ex_gh)
   \<and> key (ex_pr 3 ''https://github.com/o/r/pull/3'' ''three, retitled'')
       \<in> fst ` set (own (pruned (ex_os []) None (Content ex_ledger) 0))
   \<and> ex_pr 3 ''https://github.com/o/r/pull/3'' ''three, retitled''
       \<notin> set (selected (ex_os []) None (Content ex_ledger) ex_gh 0)
   \<and> launched (out (main (ex_os []) False None (Content ex_ledger) ex_gh 0)) =
       [''https://github.com/o/r/pull/7'', ''https://github.com/o/r/pull/2'',
        ''https://github.com/o/r/pull/8'']"
proof -
  have a: "ex_pr 3 ''https://github.com/o/r/pull/3'' ''three, retitled'' \<in> set (fetched None ex_gh)"
    by (simp add: ex_fetched ex_prs_def)
  have b: "key (ex_pr 3 ''https://github.com/o/r/pull/3'' ''three, retitled'')
       \<in> fst ` set (own (pruned (ex_os []) None (Content ex_ledger) 0))"
    by (simp add: ex_pruned [OF ex_retention(1)] ex_keys)
  have c: "\<not> paused (loadConfig None)"
    by (simp add: loadConfig_def)
  have d: "map url (selected (ex_os []) None (Content ex_ledger) ex_gh 0) =
       [''https://github.com/o/r/pull/7'', ''https://github.com/o/r/pull/2'',
        ''https://github.com/o/r/pull/8'']"
    by (simp add: ex_selected ex_pr_def)
  show ?thesis
    using ledger_key_never_reopened [of None ex_gh "ex_os []" "Content ex_ledger" 0 False]
      a b c d by simp
qed

text \<open>
  C4, as stated, fails: with four fetched PRs, none of them in the ledger, and
  \<open>maxTabsToOpen = 2\<close>, \<^verbatim>\<open>openTab\<close> is called for the first two, the browser cannot be
  launched on either, and no tab is opened, where \<open>min 4 2 = 2\<close>.
\<close>

theorem tabs_opened_counterexample:
  "maxTabsToOpen (loadConfig (Some (ex_config 2))) = 2
   \<and> length (fetched (Some (ex_config 2)) ex_gh) = 4
   \<and> own (pruned (ex_os (map url ex_prs)) (Some (ex_config 2)) Missing 0) = []
   \<and> \<not> paused (loadConfig (Some (ex_config 2)))
   \<and> run_attempts (ex_os (map url ex_prs)) False (Some (ex_config 2)) Missing ex_gh 0 =
       [(ex_pr 3 ''https://github.com/o/r/pull/3'' ''three, retitled'', None),
        (ex_pr 7 ''https://github.com/o/r/pull/7'' ''seven'', None)]
   \<and> opened_count
       (run_attempts (ex_os (map url ex_prs)) False (Some (ex_config 2)) Missing ex_gh 0) = 0
   \<and> opened (out (main (ex_os (map url ex_prs)) False (Some (ex_config 2)) Missing ex_gh 0)) = []"
proof -
  have s: "selected (ex_os (map url ex_prs)) (Some (ex_config 2)) Missing ex_gh 0 =
       [ex_pr 3 ''https://github.com/o/r/pull/3'' ''three, retitled'',
        ex_pr 7 ''https://github.com/o/r/pull/7'' ''seven'']"
    by (simp add: ex_selected_Missing ex_maxTabs slice_def ex_prs_def)
  have r: "run_attempts (ex_os (map url ex_prs)) False (Some (ex_config 2)) Missing ex_gh 0 =
       [(ex_pr 3 ''https://github.com/o/r/pull/3'' ''three, retitled'', None),
        (ex_pr 7 ''https://github.com/o/r/pull/7'' ''seven'', None)]"
    unfolding run_attempts_def s
    by (simp add: ex_prs_def openTab_def ex_os_def ex_pr_def)
  have l: "length (fetched (Some (ex_config 2)) ex_gh) = 4"
    by (simp add: ex_fetched ex_prs_def)
  show ?thesis
    unfolding opened_main r
    by (simp add: l ex_maxTabs pruned_Missing opened_count_def)
qed

text \<open>
  C4, amended. With \<open>maxTabsToOpen = M\<close> not negative, the selected PRs are the first \<open>M\<close>, in
  fetch order, of the fetched PRs that pass the filter; when the ledger file has no entry
  under the name \<^verbatim>\<open>__proto__\<close>, those are the fetched PRs whose identity key is not a key of
  the pruned ledger. \<^verbatim>\<open>openTab\<close> is called once for each selected PR, in that order. When
  moreover no fetched PR is in the ledger, the selected PRs are the first \<open>M\<close> fetched PRs,
  \<open>min N M\<close> of them; a run that is not paused calls \<^verbatim>\<open>openTab\<close> with their URLs in that
  order and, unless it is a dry run, launches the browser on each; a dry run opens no tab,
  and a run that is not one opens \<open>min N M\<close> tabs when every call of \<^verbatim>\<open>openTab\<close> returns
  true, as it does when every launch succeeds.
\<close>

theorem diff_filters_then_truncates:
  assumes "0 \<le> maxTabsToOpen (loadConfig cf)"
  shows "selected os cf nfile gh w =
           take (nat (maxTabsToOpen (loadConfig cf)))
             (filter (\<lambda>p. \<not> truthy_at (pruned os cf nfile w) (key p)) (fetched cf gh))
         \<and> map fst (run_attempts os d cf nfile gh w) = selected os cf nfile gh w
         \<and> (''__proto__'' \<notin> fst ` set (own (loadNotified nfile)) \<longrightarrow>
              selected os cf nfile gh w =
                take (nat (maxTabsToOpen (loadConfig cf)))
                  (filter (\<lambda>p. key p \<notin> fst ` set (own (pruned os cf nfile w))) (fetched cf gh))
              \<and> ((\<forall>p \<in> set (fetched cf gh). key p \<notin> fst ` set (own (pruned os cf nfile w))) \<longrightarrow>
                   selected os cf nfile gh w =
                     take (nat (maxTabsToOpen (loadConfig cf))) (fetched cf gh)
                   \<and> length (run_attempts os d cf nfile gh w) =
                       min (length (fetched cf gh)) (nat (maxTabsToOpen (loadConfig cf)))
                   \<and> (\<not> paused (loadConfig cf) \<longrightarrow>
                        attempted (out (main os d cf nfile gh w)) =
                          map url (take (nat (maxTabsToOpen (loadConfig cf))) (fetched cf gh))
                        \<and> length (attempted (out (main os d cf nfile gh w))) =
                            min (length (fetched cf gh)) (nat (maxTabsToOpen (loadConfig cf)))
                        \<and> launched (out (main os False cf nfile gh w)) =
                            map url (take (nat (maxTabsToOpen (loadConfig cf))) (fetched cf gh))
                        \<and> opened (out (main os True cf nfile gh w)) = []
                        \<and> ((\<forall>(p, r) \<in> set (run_attempts os False cf nfile gh w). r \<noteq> None) \<longrightarrow>
                             opened (out (main os False cf nfile gh w)) =
                               map url (take (nat (maxTabsToOpen (loadConfig cf))) (fetched cf gh))
                             \<and> length (opened (out (main os False cf nfile gh w))) =
                                 min (length (fetched cf gh)) (nat (maxTabsToOpen (loadConfig cf))))
                        \<and> ((\<forall>u w'. fst (execOpen os u w')) \<longrightarrow>
                             length (opened (out (main os False cf nfile gh w))) =
                               min (length (fetched cf gh))
                                 (nat (maxTabsToOpen (loadConfig cf)))))))"
proof -
  let ?M = "nat (maxTabsToOpen (loadConfig cf))"
  have s: "selected os cf nfile gh w =
           take ?M (filter (\<lambda>p. \<not> truthy_at (pruned os cf nfile w) (key p)) (fetched cf gh))"
    unfolding selected_def newPRs_def using assms by (rule slice_nonneg)
  have a: "map fst (run_attempts os d cf nfile gh w) = selected os cf nfile gh w" for d
    by (simp add: run_attempts_def map_fst_attempts)
  have l: "length (run_attempts os d cf nfile gh w) = length (selected os cf nfile gh w)" for d
    using a [of d] by (metis length_map)
  have k: "selected os cf nfile gh w =
             take ?M (filter (\<lambda>p. key p \<notin> fst ` set (own (pruned os cf nfile w))) (fetched cf gh))"
    if "''__proto__'' \<notin> fst ` set (own (loadNotified nfile))"
    unfolding s by (simp add: truthy_at_pruned [OF that])
  have o: "opened (out (main os False cf nfile gh w)) = map url (selected os cf nfile gh w)"
    if np: "\<not> paused (loadConfig cf)"
      and all: "\<forall>(p, r) \<in> set (run_attempts os False cf nfile gh w). r \<noteq> None"
  proof -
    from all have "filter (\<lambda>(p, r). r \<noteq> None) (run_attempts os False cf nfile gh w) =
        run_attempts os False cf nfile gh w"
      by (auto simp add: filter_id_conv)
    then have "opened (out (main os False cf nfile gh w)) =
        map (\<lambda>(p, r). url p) (run_attempts os False cf nfile gh w)"
      using np by (simp add: opened_main)
    also have "\<dots> = map url (map fst (run_attempts os False cf nfile gh w))"
      by (simp add: case_prod_beta comp_def)
    finally show ?thesis
      by (simp add: a)
  qed
  have e: "\<forall>(p, r) \<in> set (run_attempts os False cf nfile gh w). r \<noteq> None"
    if "\<forall>u w'. fst (execOpen os u w')"
    unfolding run_attempts_def using attempts_all_launched [OF that] by fast
  have t: "selected os cf nfile gh w = take ?M (fetched cf gh)"
    if "''__proto__'' \<notin> fst ` set (own (loadNotified nfile))"
      and "\<forall>p \<in> set (fetched cf gh). key p \<notin> fst ` set (own (pruned os cf nfile w))"
    using k [OF that(1)] that(2) by simp
  have lt: "length (take ?M (fetched cf gh)) = min (length (fetched cf gh)) ?M"
    by (simp add: min.commute)
  have d: "opened (out (main os True cf nfile gh w)) = []"
    by (simp add: opened_main)
  show ?thesis
  proof (intro conjI impI)
    show "selected os cf nfile gh w =
           take ?M (filter (\<lambda>p. \<not> truthy_at (pruned os cf nfile w) (key p)) (fetched cf gh))"
      by (rule s)
    show "map fst (run_attempts os d cf nfile gh w) = selected os cf nfile gh w"
      by (rule a)
    show "selected os cf nfile gh w =
             take ?M (filter (\<lambda>p. key p \<notin> fst ` set (own (pruned os cf nfile w))) (fetched cf gh))"
      if "''__proto__'' \<notin> fst ` set (own (loadNotified nfile))"
      using that by (rule k)
    show "selected os cf nfile gh w = take ?M (fetched cf gh)"
      if "''__proto__'' \<notin> fst ` set (own (loadNotified nfile))"
        and "\<forall>p \<in> set (fetched cf gh). key p \<notin> fst ` set (own (pruned os cf nfile w))"
      using that by (rule t)
    show "length (run_attempts os d cf nfile gh w) = min (length (fetched cf gh)) ?M"
      if "''__proto__'' \<notin> fst ` set (own (loadNotified nfile))"
        and "\<forall>p \<in> set (fetched cf gh). key p \<notin> fst ` set (own (pruned os cf nfile w))"
      unfolding l t [OF that] by (rule lt)
    show "attempted (out (main os d cf nfile gh w)) = map url (take ?M (fetched cf gh))"
      if "''__proto__'' \<notin> fst ` set (own (loadNotified nfile))"
        and "\<forall>p \<in> set (fetched cf gh). key p \<notin> fst ` set (own (pruned os cf nfile w))"
        and "\<not> paused (loadConfig cf)"
      using that(3) by (simp add: attempted_main t [OF that(1,2)])
    show "length (attempted (out (main os d cf nfile gh w))) = min (length (fetched cf gh)) ?M"
      if "''__proto__'' \<notin> fst ` set (own (loadNotified nfile))"
        and "\<forall>p \<in> set (fetched cf gh). key p \<notin> fst ` set (own (pruned os cf nfile w))"
        and "\<not> paused (loadConfig cf)"
      using that(3) by (simp add: attempted_main t [OF that(1,2)] min.commute)
    show "launched (out (main os False cf nfile gh w)) = map url (take ?M (fetched cf gh))"
      if "''__proto__'' \<notin> fst ` set (own (loadNotified nfile))"
        and "\<forall>p \<in> set (fetched cf gh). key p \<notin> fst ` set (own (pruned os cf nfile w))"
        and "\<not> paused (loadConfig cf)"
      using that(3) by (simp add: launched_main t [OF that(1,2)])
    show "opened (out (main os True cf nfile gh w)) = []"
      by (rule d)
    show "opened (out (main os False cf nfile gh w)) = map url (take ?M (fetched cf gh))"
      if "''__proto__'' \<notin> fst ` set (own (loadNotified nfile))"
        and "\<forall>p \<in> set (fetched cf gh). key p \<notin> fst ` set (own (pruned os cf nfile w))"
        and "\<not> paused (loadConfig cf)"
        and "\<forall>(p, r) \<in> set (run_attempts os False cf nfile gh w). r \<noteq> None"
      using o [OF that(3,4)] by (simp add: t [OF that(1,2)])
    show "length (opened (out (main os False cf nfile gh w))) = min (length (fetched cf gh)) ?M"
      if "''__proto__'' \<notin> fst ` set (own (loadNotified nfile))"
        and "\<forall>p \<in> set (fetched cf gh). key p \<notin> fst ` set (own (pruned os cf nfile w))"
        and "\<not> paused (loadConfig cf)"
        and "\<forall>(p, r) \<in> set (run_attempts os False cf nfile gh w). r \<noteq> None"
      using o [OF that(3,4)] by (simp add: t [OF that(1,2)] min.commute)
    show "length (opened (out (main os False cf nfile gh w))) = min (length (fetched cf gh)) ?M"
      if "''__proto__'' \<notin> fst ` set (own (loadNotified nfile))"
        and "\<forall>p \<in> set (fetched cf gh). key p \<notin> fst ` set (own (pruned os cf nfile w))"
        and "\<not> paused (loadConfig cf)"
        and "\<forall>u w'. fst (execOpen os u w')"
      using o [OF that(3) e [OF that(4)]] by (simp add: t [OF that(1,2)] min.commute)
  qed
qed

theorem diff_filters_then_truncates_witness:
  "0 \<le> maxTabsToOpen (loadConfig (Some (ex_config 2)))
   \<and> ''__proto__'' \<notin> fst ` set (own (loadNotified (Content ex_ledger)))
   \<and> \<not> paused (loadConfig (Some (ex_config 2)))
   \<and> map key (fetched (Some (ex_config 2)) ex_gh) = [''o/r#3'', ''o/r#7'', ''o/r#2'', ''o/r#8'']
   \<and> map fst (own (pruned (ex_os []) (Some (ex_config 2)) (Content ex_ledger) 0)) =
       [''o/r#1'', ''o/r#3'']
   \<and> selected (ex_os []) (Some (ex_config 2)) (Content ex_ledger) ex_gh 0 =
       [ex_pr 7 ''https://github.com/o/r/pull/7'' ''seven'',
        ex_pr 2 ''https://github.com/o/r/pull/2'' ''two'']
   \<and> map key (fetched (Some (ex_config 2)) ex_new) = [''o/r#7'', ''o/r#2'', ''o/r#8'']
   \<and> run_attempts (ex_os []) False (Some (ex_config 2)) (Content ex_ledger) ex_new 0 =
       [(ex_pr 7 ''https://github.com/o/r/pull/7'' ''seven'', Some 864000002),
        (ex_pr 2 ''https://github.com/o/r/pull/2'' ''two'', Some 864000003)]
   \<and> opened (out (main (ex_os []) False (Some (ex_config 2)) (Content ex_ledger) ex_new 0)) =
       [''https://github.com/o/r/pull/7'', ''https://github.com/o/r/pull/2'']
   \<and> length (opened (out (main (ex_os []) False (Some (ex_config 2)) (Content ex_ledger)
                              ex_new 0))) = 2"
proof -
  let ?cf = "Some (ex_config 2)"
  have a: "0 \<le> maxTabsToOpen (loadConfig ?cf)"
    by (simp add: ex_maxTabs)
  have h: "''__proto__'' \<notin> fst ` set (own (loadNotified (Content ex_ledger)))"
    by (simp add: loadNotified_def ex_ledger_def)
  have np: "\<not> paused (loadConfig ?cf)"
    by (simp add: ex_maxTabs)
  have p: "own (pruned (ex_os []) ?cf (Content ex_ledger) 0) =
     [(''o/r#1'', \<lparr>at = Some ''1970-01-10T00:00:00.000Z'', notifiedAt = None, title = ''one'',
                   other = []\<rparr>),
      (''o/r#3'', \<lparr>at = None, notifiedAt = Some ''1970-01-10T00:00:00.000Z'', title = ''three'',
                   other = [(''updatedAt'', JStr ''1970-01-09T00:00:00.000Z'')]\<rparr>)]"
    by (simp add: ex_pruned [OF ex_retention(2)])
  have f: "fetched ?cf ex_gh = ex_prs"
    "fetched ?cf ex_new =
       [ex_pr 7 ''https://github.com/o/r/pull/7'' ''seven'',
        ex_pr 2 ''https://github.com/o/r/pull/2'' ''two'',
        ex_pr 8 ''https://github.com/o/r/pull/8'' ''eight'']"
    by (simp_all add: fetched_def ex_gh_def ex_new_def)
  have n: "\<forall>p \<in> set (fetched ?cf ex_new).
             key p \<notin> fst ` set (own (pruned (ex_os []) ?cf (Content ex_ledger) 0))"
    unfolding p f by (simp add: ex_keys)
  have r: "run_attempts (ex_os []) False ?cf (Content ex_ledger) ex_new 0 =
       [(ex_pr 7 ''https://github.com/o/r/pull/7'' ''seven'', Some 864000002),
        (ex_pr 2 ''https://github.com/o/r/pull/2'' ''two'', Some 864000003)]"
    unfolding ex_run_attempts ex_new_selected
    by (simp add: openTab_def ex_os_def ex_pr_def readClock_def log_def)
  have all: "\<forall>(p, r) \<in> set (run_attempts (ex_os []) False ?cf (Content ex_ledger) ex_new 0).
               r \<noteq> None"
    unfolding r by simp
  note T1 = diff_filters_then_truncates [OF a, where os = "ex_os []"
      and nfile = "Content ex_ledger" and gh = ex_gh and w = 0 and d = False]
  note T2 = diff_filters_then_truncates [OF a, where os = "ex_os []"
      and nfile = "Content ex_ledger" and gh = ex_new and w = 0 and d = False]
  from T1 h have "selected (ex_os []) ?cf (Content ex_ledger) ex_gh 0 =
      take (nat (maxTabsToOpen (loadConfig ?cf)))
        (filter (\<lambda>p. key p \<notin> fst ` set (own (pruned (ex_os []) ?cf (Content ex_ledger) 0)))
           (fetched ?cf ex_gh))"
    by blast
  then have s: "selected (ex_os []) ?cf (Content ex_ledger) ex_gh 0 =
       [ex_pr 7 ''https://github.com/o/r/pull/7'' ''seven'',
        ex_pr 2 ''https://github.com/o/r/pull/2'' ''two'']"
    unfolding p f by (simp add: ex_prs_def ex_keys ex_maxTabs)
  from T2 h n np all
  have "opened (out (main (ex_os []) False ?cf (Content ex_ledger) ex_new 0)) =
          map url (take (nat (maxTabsToOpen (loadConfig ?cf))) (fetched ?cf ex_new))
        \<and> length (opened (out (main (ex_os []) False ?cf (Content ex_ledger) ex_new 0))) =
            min (length (fetched ?cf ex_new)) (nat (maxTabsToOpen (loadConfig ?cf)))"
    by blast
  then have o: "opened (out (main (ex_os []) False ?cf (Content ex_ledger) ex_new 0)) =
       [''https://github.com/o/r/pull/7'', ''https://github.com/o/r/pull/2'']"
    "length (opened (out (main (ex_os []) False ?cf (Content ex_ledger) ex_new 0))) = 2"
    unfolding f by (simp_all add: ex_maxTabs ex_pr_def)
  have k: "map key (fetched ?cf ex_gh) = [''o/r#3'', ''o/r#7'', ''o/r#2'', ''o/r#8'']"
    "map key (fetched ?cf ex_new) = [''o/r#7'', ''o/r#2'', ''o/r#8'']"
    unfolding f by (simp_all add: ex_prs_def ex_keys)
  show ?thesis
    using a h np k s r o by (simp add: p)
qed

text \<open>
  C5, as stated, fails: two fetched PRs have the key \<^verbatim>\<open>o/r#7\<close>, the open of the first
  succeeds and the open of the second fails, and the ledger written has the key of the PR
  whose open failed, with the title of the other.
\<close>

theorem failed_open_counterexample:
  "selected (ex_flaky 3) None Missing ex_twice 0 =
     [ex_pr 7 ''https://github.com/o/r/pull/7'' ''seven'',
      ex_pr 7 ''https://github.com/o/r/pull/7'' ''seven, again'']
   \<and> run_attempts (ex_flaky 3) False None Missing ex_twice 0 =
       [(ex_pr 7 ''https://github.com/o/r/pull/7'' ''seven'', Some 864000003),
        (ex_pr 7 ''https://github.com/o/r/pull/7'' ''seven, again'', None)]
   \<and> key (ex_pr 7 ''https://github.com/o/r/pull/7'' ''seven, again'') = ''o/r#7''
   \<and> writes (out (main (ex_flaky 3) False None Missing ex_twice 0)) =
       [[(''o/r#7'', \<lparr>at = Some ''1970-01-11T00:00:00.003Z'', notifiedAt = None,
                      title = ''seven'', other = []\<rparr>)]]"
proof -
  let ?p = "ex_pr 7 ''https://github.com/o/r/pull/7'' ''seven''"
  let ?q = "ex_pr 7 ''https://github.com/o/r/pull/7'' ''seven, again''"
  have r: "run_attempts (ex_flaky 3) False None Missing ex_twice 0 =
       [(?p, Some 864000003), (?q, None)]"
    unfolding ex_flaky_run_attempts ex_twice_selected
    by (simp add: openTab_def ex_flaky_def ex_pr_def readClock_def log_def logError_def)
  have f: "fetched None ex_twice \<noteq> []"
    by (simp add: fetched_def ex_twice_def)
  have "final_ledger (ex_flaky 3) False None Missing ex_twice 0 =
          foldl (record_attempt (ex_flaky 3)) \<lparr>own = [], proto = None\<rparr> [(?p, Some 864000003), (?q, None)]"
    unfolding final_ledger_def open_loop_attempts pruned_Missing
    using r by (simp add: run_attempts_def)
  then have "own (final_ledger (ex_flaky 3) False None Missing ex_twice 0) =
       [(''o/r#7'', \<lparr>at = Some ''1970-01-11T00:00:00.003Z'', notifiedAt = None,
                      title = ''seven'', other = []\<rparr>)]"
    by (simp add: assign_def new_entry_def ex_keys ex_flaky_def string_of_nat_digit)
       (simp add: ex_pr_def)
  then show ?thesis
    using r f by (simp add: writes_main ex_maxTabs ex_twice_selected ex_keys)
qed

text \<open>
  C5, amended. In a run that reaches the loop, the ledger written at the end holds, under a
  key, the entry \<^verbatim>\<open>{ at, title }\<close> of the last open of a PR with that key that reported
  success, stamped with the clock reading taken then and carrying that PR's title, and
  otherwise what the pruned ledger held; the pruned ledger holds no key of a selected PR.
  So the key of a selected PR is in the written ledger if and only if the open of some
  selected PR with that key reported success; and when no other open is of a PR with its
  key, the key of a selected PR is in the written ledger, with the entry of its own open, if
  and only if its open reported success, and is absent from it when its open failed. A key
  absent from the written ledger is absent from the pruned ledger of any later run that
  loads it, whose filter therefore keeps a PR of that key.
\<close>

theorem entry_added_iff_open_succeeded:
  assumes "\<not> paused (loadConfig cf)" and "fetched cf gh \<noteq> []"
  shows "writes (out (main os d cf nfile gh w)) = [own (final_ledger os d cf nfile gh w)]
         \<and> (\<forall>k. map_of (own (final_ledger os d cf nfile gh w)) k =
               (case last_success k (run_attempts os d cf nfile gh w) of
                  Some (p, t) \<Rightarrow>
                    Some \<lparr>at = Some (toISOString os t), notifiedAt = None, title = pr_title p,
                          other = []\<rparr>
                | None \<Rightarrow> map_of (own (pruned os cf nfile w)) k))
         \<and> (\<forall>(p, r) \<in> set (run_attempts os d cf nfile gh w).
               map_of (own (pruned os cf nfile w)) (key p) = None)
         \<and> (\<forall>(p, r) \<in> set (run_attempts os d cf nfile gh w).
               (map_of (own (final_ledger os d cf nfile gh w)) (key p) \<noteq> None) =
               (\<exists>q t. (q, Some t) \<in> set (run_attempts os d cf nfile gh w) \<and> key q = key p))
         \<and> (\<forall>(p, r) \<in> set (run_attempts os d cf nfile gh w).
               (\<forall>(q, r') \<in> set (run_attempts os d cf nfile gh w).
                   key q = key p \<longrightarrow> (q, r') = (p, r)) \<longrightarrow>
               map_of (own (final_ledger os d cf nfile gh w)) (key p) =
                 (case r of
                    Some t \<Rightarrow>
                      Some \<lparr>at = Some (toISOString os t), notifiedAt = None,
                            title = pr_title p, other = []\<rparr>
                  | None \<Rightarrow> None))
         \<and> (\<forall>k os' cf' w'.
               map_of (own (final_ledger os d cf nfile gh w)) k = None \<longrightarrow>
               map_of (own (pruned (os' :: 'w os) cf'
                              (Content (own (final_ledger os d cf nfile gh w))) w')) k = None)
         \<and> (\<forall>p os' cf' w'.
               map_of (own (final_ledger os d cf nfile gh w)) (key p) = None \<longrightarrow>
               \<not> truthy_at (pruned (os' :: 'w os) cf'
                              (Content (own (final_ledger os d cf nfile gh w))) w') (key p))"
proof -
  let ?as = "run_attempts os d cf nfile gh w"
  let ?final = "final_ledger os d cf nfile gh w"
  have a: "writes (out (main os d cf nfile gh w)) = [own ?final]"
    using assms by (simp add: writes_main)
  have b: "\<forall>k. map_of (own ?final) k =
               (case last_success k ?as of
                  Some (p, t) \<Rightarrow>
                    Some \<lparr>at = Some (toISOString os t), notifiedAt = None, title = pr_title p,
                          other = []\<rparr>
                | None \<Rightarrow> map_of (own (pruned os cf nfile w)) k)"
    unfolding final_ledger_map_of new_entry_def by simp
  have c: "\<forall>(p, r) \<in> set ?as. map_of (own (pruned os cf nfile w)) (key p) = None"
    using run_attempts_selected selected_absent by fast
  have i: "(map_of (own ?final) (key p) \<noteq> None) =
             (\<exists>q t. (q, Some t) \<in> set ?as \<and> key q = key p)"
    if m: "(p, r) \<in> set ?as" for p r
  proof (cases "last_success (key p) ?as")
    case None
    then have "\<forall>(q, r') \<in> set ?as. key q = key p \<longrightarrow> r' = None"
      by (simp add: last_success_None_iff)
    then have "\<not> (\<exists>q t. (q, Some t) \<in> set ?as \<and> key q = key p)"
      by auto
    moreover from None b c m have "map_of (own ?final) (key p) = None"
      by auto
    ultimately show ?thesis
      by simp
  next
    case (Some x)
    obtain q t where x: "x = (q, t)" by (cases x)
    from Some x last_success_SomeD [of "key p" ?as q t]
    have "(q, Some t) \<in> set ?as \<and> key q = key p"
      by simp
    moreover from Some x b have "map_of (own ?final) (key p) \<noteq> None"
      by simp
    ultimately show ?thesis
      by blast
  qed
  have e: "map_of (own ?final) (key p) =
             (case r of
                Some t \<Rightarrow>
                  Some \<lparr>at = Some (toISOString os t), notifiedAt = None, title = pr_title p,
                        other = []\<rparr>
              | None \<Rightarrow> None)"
    if m: "(p, r) \<in> set ?as"
      and alone: "\<forall>(q, r') \<in> set ?as. key q = key p \<longrightarrow> (q, r') = (p, r)" for p r
    using last_success_alone [OF m alone] b c m by (cases r) auto
  have f: "map_of (own (pruned (os' :: 'w os) cf' (Content (own ?final)) w')) k = None"
    if "map_of (own ?final) k = None" for k os' cf' w'
    unfolding pruned_def using that by (simp add: loadNotified_def cleanupOldNotified_absent)
  have g: "\<not> truthy_at (pruned (os' :: 'w os) cf' (Content (own ?final)) w') (key p)"
    if "map_of (own ?final) (key p) = None" for p os' cf' w'
    using that by (rule later_run_absent)
  from a b c i e f g show ?thesis
    by blast
qed

theorem entry_added_iff_open_succeeded_witness:
  "\<not> paused (loadConfig None) \<and> fetched None ex_gh \<noteq> []
   \<and> run_attempts (ex_os [''https://github.com/o/r/pull/7'']) False None (Content ex_ledger)
       ex_gh 0 =
       [(ex_pr 7 ''https://github.com/o/r/pull/7'' ''seven'', None),
        (ex_pr 2 ''https://github.com/o/r/pull/2'' ''two'', Some 864000002),
        (ex_pr 8 ''https://github.com/o/r/pull/8'' ''eight'', Some 864000003)]
   \<and> map_of (own (final_ledger (ex_os [''https://github.com/o/r/pull/7'']) False None
                    (Content ex_ledger) ex_gh 0)) ''o/r#7'' = None
   \<and> map_of (own (final_ledger (ex_os [''https://github.com/o/r/pull/7'']) False None
                    (Content ex_ledger) ex_gh 0)) ''o/r#2'' =
       Some \<lparr>at = Some ''1970-01-11T00:00:00.002Z'', notifiedAt = None, title = ''two'',
             other = []\<rparr>
   \<and> \<not> truthy_at
         (pruned (ex_os []) None
            (Content (own (final_ledger (ex_os [''https://github.com/o/r/pull/7'']) False None
                             (Content ex_ledger) ex_gh 0))) 5)
         ''o/r#7''"
proof -
  let ?os = "ex_os [''https://github.com/o/r/pull/7'']"
  let ?p7 = "ex_pr 7 ''https://github.com/o/r/pull/7'' ''seven''"
  let ?p2 = "ex_pr 2 ''https://github.com/o/r/pull/2'' ''two''"
  let ?as = "run_attempts ?os False None (Content ex_ledger) ex_gh 0"
  let ?final = "final_ledger ?os False None (Content ex_ledger) ex_gh 0"
  have a: "\<not> paused (loadConfig None)"
    by (simp add: ex_maxTabs)
  have b: "fetched None ex_gh \<noteq> []"
    by (simp add: ex_fetched ex_prs_def)
  have r: "?as =
       [(?p7, None), (?p2, Some 864000002),
        (ex_pr 8 ''https://github.com/o/r/pull/8'' ''eight'', Some 864000003)]"
    unfolding ex_run_attempts ex_selected
    by (simp add: openTab_def ex_os_def ex_pr_def readClock_def log_def logError_def)
  have iso: "toISOString ?os 864000002 = ''1970-01-11T00:00:00.002Z''"
    by (simp add: ex_os_def string_of_nat_digit)
  have t: "pr_title ?p2 = ''two''"
    by (simp add: ex_pr_def)
  note T = entry_added_iff_open_succeeded [OF a b, where os = ?os and d = False
      and nfile = "Content ex_ledger" and w = 0]
  from T have u: "\<forall>(p, r) \<in> set ?as.
      (\<forall>(q, r') \<in> set ?as. key q = key p \<longrightarrow> (q, r') = (p, r)) \<longrightarrow>
      map_of (own ?final) (key p) =
        (case r of
           Some t \<Rightarrow>
             Some \<lparr>at = Some (toISOString ?os t), notifiedAt = None, title = pr_title p,
                   other = []\<rparr>
         | None \<Rightarrow> None)"
    by (elim conjE) assumption
  have m7: "(?p7, None) \<in> set ?as" and m2: "(?p2, Some 864000002) \<in> set ?as"
    unfolding r by simp_all
  have al7: "\<forall>(q, r') \<in> set ?as. key q = key ?p7 \<longrightarrow> (q, r') = (?p7, None)"
    and al2: "\<forall>(q, r') \<in> set ?as. key q = key ?p2 \<longrightarrow> (q, r') = (?p2, Some 864000002)"
    unfolding r by (simp_all add: ex_keys)
  from u [rule_format, OF m7] al7 have "map_of (own ?final) (key ?p7) = None"
    by simp
  then have n7: "map_of (own ?final) ''o/r#7'' = None"
    by (simp add: ex_keys)
  from u [rule_format, OF m2] al2
  have "map_of (own ?final) (key ?p2) =
       Some \<lparr>at = Some (toISOString ?os 864000002), notifiedAt = None, title = pr_title ?p2,
             other = []\<rparr>"
    by simp
  then have n2: "map_of (own ?final) ''o/r#2'' =
       Some \<lparr>at = Some ''1970-01-11T00:00:00.002Z'', notifiedAt = None, title = ''two'',
             other = []\<rparr>"
    by (simp add: ex_keys iso t)
  from T have "\<forall>p (os' :: nat os) cf' w'.
      map_of (own ?final) (key p) = None \<longrightarrow>
      \<not> truthy_at (pruned os' cf' (Content (own ?final)) w') (key p)"
    by (elim conjE) assumption
  from this [rule_format, of ?p7 "ex_os []" None 5] n7
  have f: "\<not> truthy_at (pruned (ex_os []) None (Content (own ?final)) 5) ''o/r#7''"
    by (simp add: ex_keys)
  show ?thesis
    using a b r n7 n2 f by simp
qed

text \<open>
  C6, as stated, fails: when the browser cannot be launched on any of the four new PRs, no
  tab is opened and the notification is sent all the same.
\<close>

theorem notification_counterexample:
  "opened_count
     (run_attempts (ex_os (map url ex_prs)) False None Missing ex_gh 0) = 0
   \<and> notifications (out (main (ex_os (map url ex_prs)) False None Missing ex_gh 0)) =
       [(''PR Opener'', 4)]"
proof -
  have s: "selected (ex_os (map url ex_prs)) None Missing ex_gh 0 = ex_prs"
    by (simp add: ex_selected_Missing ex_maxTabs slice_def ex_prs_def)
  have "run_attempts (ex_os (map url ex_prs)) False None Missing ex_gh 0 =
          map (\<lambda>p. (p, None)) ex_prs"
    unfolding run_attempts_def s
    by (simp add: ex_prs_def openTab_def ex_os_def ex_pr_def)
  then have "opened_count (run_attempts (ex_os (map url ex_prs)) False None Missing ex_gh 0) = 0"
    by (simp add: opened_count_def)
  moreover have "notifications (out (main (ex_os (map url ex_prs)) False None Missing ex_gh 0)) =
       [(''PR Opener'', 4)]"
    by (simp add: notifications_main s ex_maxTabs) (simp add: ex_prs_def)
  ultimately show ?thesis by simp
qed

text \<open>
  C6, amended. The notification is sent exactly when the run is not paused, at least one
  PR was selected for opening and \<open>enableNotification\<close> is true; it is sent once and
  reports the number of selected PRs. So it is sent whenever a tab was opened and
  notifications are enabled, and also when every attempted open failed.
\<close>

theorem notification_iff_selected:
  "notifications (out (main os d cf nfile gh w)) =
     (if \<not> paused (loadConfig cf) \<and> selected os cf nfile gh w \<noteq> []
         \<and> enableNotification (loadConfig cf)
      then [(''PR Opener'', length (selected os cf nfile gh w))] else [])
   \<and> (\<not> paused (loadConfig cf) \<and> enableNotification (loadConfig cf)
        \<and> 0 < opened_count (run_attempts os d cf nfile gh w)
      \<longrightarrow> notifications (out (main os d cf nfile gh w)) \<noteq> [])"
proof -
  have "selected os cf nfile gh w \<noteq> []" if "0 < opened_count (run_attempts os d cf nfile gh w)"
  proof
    assume "selected os cf nfile gh w = []"
    then have "run_attempts os d cf nfile gh w = []"
      by (simp add: run_attempts_def)
    with that show False
      by (simp add: opened_count_def)
  qed
  then show ?thesis
    by (auto simp add: notifications_main)
qed

theorem notification_iff_selected_witness:
  "\<not> paused (loadConfig None) \<and> enableNotification (loadConfig None)
   \<and> 0 < opened_count (run_attempts (ex_os []) False None Missing ex_gh 0)
   \<and> notifications (out (main (ex_os []) False None Missing ex_gh 0)) = [(''PR Opener'', 4)]"
proof -
  have s: "selected (ex_os []) None Missing ex_gh 0 = ex_prs"
    by (simp add: ex_selected_Missing ex_maxTabs slice_def ex_prs_def)
  have c: "0 < opened_count (run_attempts (ex_os []) False None Missing ex_gh 0)"
    unfolding run_attempts_def s
    by (simp add: ex_prs_def openTab_def ex_os_def ex_pr_def opened_count_def readClock_def
        log_def)
  have l: "length ex_prs = 4" "ex_prs \<noteq> []"
    by (simp_all add: ex_prs_def)
  show ?thesis
    using notification_iff_selected [where os = "ex_os []" and d = False and cf = None
        and nfile = Missing and gh = ex_gh and w = 0] c
    by (simp add: ex_maxTabs s l)
qed

text \<open>
  C7, as stated, fails: with \<open>maxTabsToOpen = -1\<close> and four new PRs the run opens three
  tabs.
\<close>

theorem negative_maxTabs_counterexample:
  "maxTabsToOpen (loadConfig (Some (ex_config (- 1)))) < 0
   \<and> launched (out (main (ex_os []) False (Some (ex_config (- 1))) Missing ex_gh 0)) =
       [''https://github.com/o/r/pull/3'', ''https://github.com/o/r/pull/7'',
        ''https://github.com/o/r/pull/2'']
   \<and> opened (out (main (ex_os []) False (Some (ex_config (- 1))) Missing ex_gh 0)) =
       [''https://github.com/o/r/pull/3'', ''https://github.com/o/r/pull/7'',
        ''https://github.com/o/r/pull/2'']"
proof -
  let ?cf = "Some (ex_config (- 1))"
  have s: "selected (ex_os []) ?cf Missing ex_gh 0 =
       [ex_pr 3 ''https://github.com/o/r/pull/3'' ''three, retitled'',
        ex_pr 7 ''https://github.com/o/r/pull/7'' ''seven'',
        ex_pr 2 ''https://github.com/o/r/pull/2'' ''two'']"
    by (simp add: ex_selected_Missing ex_maxTabs slice_def ex_prs_def)
  have r: "run_attempts (ex_os []) False ?cf Missing ex_gh 0 =
       [(ex_pr 3 ''https://github.com/o/r/pull/3'' ''three, retitled'', Some 864000002),
        (ex_pr 7 ''https://github.com/o/r/pull/7'' ''seven'', Some 864000003),
        (ex_pr 2 ''https://github.com/o/r/pull/2'' ''two'', Some 864000004)]"
    unfolding ex_run_attempts s
    by (simp add: openTab_def ex_os_def ex_pr_def readClock_def log_def)
  show ?thesis
    unfolding opened_main launched_main r s
    by (simp add: ex_maxTabs ex_pr_def)
qed

text \<open>
  C7, amended. \<^verbatim>\<open>loadConfig\<close> passes any \<open>maxTabsToOpen\<close> of the file through. With
  \<open>maxTabsToOpen = 0\<close> no PR is selected, \<^verbatim>\<open>openTab\<close> is not called and no tab is opened.
  With a negative \<open>maxTabsToOpen = -k\<close> the slice drops the last \<open>k\<close> of the new PRs, the
  fetched PRs that pass the filter: the first \<open>N - k\<close> of the \<open>N\<close> new PRs are selected and
  passed to \<^verbatim>\<open>openTab\<close>, none only when \<open>k \<ge> N\<close>.
\<close>

theorem nonpositive_maxTabs_slice:
  assumes "maxTabsToOpen (loadConfig cf) \<le> 0"
  shows "(maxTabsToOpen_opt j = Some M \<longrightarrow> maxTabsToOpen (loadConfig (Some j)) = M)
         \<and> selected os cf nfile gh w =
             (if maxTabsToOpen (loadConfig cf) = 0 then []
              else take (length (filter (\<lambda>p. \<not> truthy_at (pruned os cf nfile w) (key p))
                                   (fetched cf gh))
                         - nat (- maxTabsToOpen (loadConfig cf)))
                     (filter (\<lambda>p. \<not> truthy_at (pruned os cf nfile w) (key p)) (fetched cf gh)))
         \<and> (selected os cf nfile gh w = [] \<longleftrightarrow>
               maxTabsToOpen (loadConfig cf) = 0
               \<or> length (filter (\<lambda>p. \<not> truthy_at (pruned os cf nfile w) (key p)) (fetched cf gh))
                   \<le> nat (- maxTabsToOpen (loadConfig cf)))
         \<and> attempted (out (main os d cf nfile gh w)) =
             (if paused (loadConfig cf) then [] else map url (selected os cf nfile gh w))
         \<and> launched (out (main os d cf nfile gh w)) =
             (if paused (loadConfig cf) \<or> d then [] else map url (selected os cf nfile gh w))
         \<and> (maxTabsToOpen (loadConfig cf) = 0 \<longrightarrow> opened (out (main os d cf nfile gh w)) = [])"
proof -
  have p: "maxTabsToOpen_opt j = Some M \<longrightarrow> maxTabsToOpen (loadConfig (Some j)) = M"
    by (simp add: loadConfig_def Let_def)
  have s: "selected os cf nfile gh w =
             (if maxTabsToOpen (loadConfig cf) = 0 then []
              else take (length (filter (\<lambda>p. \<not> truthy_at (pruned os cf nfile w) (key p))
                                   (fetched cf gh))
                         - nat (- maxTabsToOpen (loadConfig cf)))
                     (filter (\<lambda>p. \<not> truthy_at (pruned os cf nfile w) (key p)) (fetched cf gh)))"
  proof (cases "maxTabsToOpen (loadConfig cf) = 0")
    case True
    then show ?thesis
      by (simp add: selected_def newPRs_def slice_nonneg)
  next
    case False
    with assms have "maxTabsToOpen (loadConfig cf) < 0" by simp
    then show ?thesis
      unfolding selected_def newPRs_def by (simp add: slice_neg)
  qed
  have e: "selected os cf nfile gh w = [] \<longleftrightarrow>
               maxTabsToOpen (loadConfig cf) = 0
               \<or> length (filter (\<lambda>p. \<not> truthy_at (pruned os cf nfile w) (key p)) (fetched cf gh))
                   \<le> nat (- maxTabsToOpen (loadConfig cf))"
    unfolding s by auto
  have z: "opened (out (main os d cf nfile gh w)) = []" if "maxTabsToOpen (loadConfig cf) = 0"
  proof -
    from that s have "selected os cf nfile gh w = []"
      by simp
    then have "run_attempts os d' cf nfile gh w = []" for d'
      by (simp add: run_attempts_def)
    then show ?thesis
      by (simp add: opened_main)
  qed
  show ?thesis
    using p s e z
      launched_main [where os = os and d = d and cf = cf and nfile = nfile and gh = gh and w = w]
      attempted_main [where os = os and d = d and cf = cf and nfile = nfile and gh = gh and w = w]
    by blast
qed

theorem nonpositive_maxTabs_slice_witness:
  "maxTabsToOpen (loadConfig (Some (ex_config (- 3)))) \<le> 0
   \<and> maxTabsToOpen (loadConfig (Some (ex_config (- 3)))) = - 3
   \<and> launched (out (main (ex_os []) False (Some (ex_config (- 3))) Missing ex_gh 0)) =
       [''https://github.com/o/r/pull/3'']"
proof -
  have a: "maxTabsToOpen (loadConfig (Some (ex_config (- 3)))) \<le> 0"
    by (simp add: ex_maxTabs)
  have b: "maxTabsToOpen_opt (ex_config (- 3)) = Some (- 3)"
    by (simp add: ex_config_def)
  show ?thesis
    using nonpositive_maxTabs_slice [OF a, of "ex_config (- 3)" "- 3" "ex_os []" Missing ex_gh 0
        False] a b
    by (simp add: pruned_Missing ex_fetched ex_maxTabs ex_prs_def ex_pr_def truthy_at_key_plain)
qed

text \<open>
  C8. In a dry run the browser is never launched, yet \<^verbatim>\<open>openTab\<close> is called for every
  selected PR and every call reports success, so the key of every selected PR is in the
  ledger after the loop, with an entry
  \<^verbatim>\<open>{ at, title }\<close> stamped with a clock reading and carrying the title of a selected PR of
  that key, and that ledger is what the run writes. It is the very ledger that a real
  run leaves when the launch succeeds on every URL (and, as in the dry run, nothing else
  moves the clock).
\<close>

theorem dry_run_records_without_launch:
  "launched (out (main os True cf nfile gh w)) = []
   \<and> attempted (out (main os True cf nfile gh w)) =
       (if paused (loadConfig cf) then [] else map url (selected os cf nfile gh w))
   \<and> (\<forall>(p, r) \<in> set (run_attempts os True cf nfile gh w). r \<noteq> None)
   \<and> (\<forall>p \<in> set (selected os cf nfile gh w).
         \<exists>q t. q \<in> set (selected os cf nfile gh w) \<and> key q = key p
           \<and> map_of (own (final_ledger os True cf nfile gh w)) (key p) =
               Some \<lparr>at = Some (toISOString os t), notifiedAt = None, title = pr_title q,
                     other = []\<rparr>)
   \<and> (\<not> paused (loadConfig cf) \<and> fetched cf gh \<noteq> [] \<longrightarrow>
         writes (out (main os True cf nfile gh w)) = [own (final_ledger os True cf nfile gh w)])
   \<and> ((\<forall>u w'. execOpen os u w' = (True, w')) \<longrightarrow>
         final_ledger os True cf nfile gh w = final_ledger os False cf nfile gh w)"
proof -
  let ?as = "run_attempts os True cf nfile gh w"
  have a: "launched (out (main os True cf nfile gh w)) = []"
    "attempted (out (main os True cf nfile gh w)) =
       (if paused (loadConfig cf) then [] else map url (selected os cf nfile gh w))"
    by (simp_all add: launched_main attempted_main)
  have b: "\<forall>(p, r) \<in> set ?as. r \<noteq> None"
    unfolding run_attempts_def using attempts_dry by fast
  have c: "\<exists>q t. q \<in> set (selected os cf nfile gh w) \<and> key q = key p
           \<and> map_of (own (final_ledger os True cf nfile gh w)) (key p) =
               Some \<lparr>at = Some (toISOString os t), notifiedAt = None, title = pr_title q,
                     other = []\<rparr>"
    if p: "p \<in> set (selected os cf nfile gh w)" for p
  proof -
    from p have "p \<in> set (map fst ?as)"
      by (simp add: run_attempts_def map_fst_attempts)
    then obtain r where m: "(p, r) \<in> set ?as"
      by auto
    with b obtain t where "r = Some t"
      by (cases r) auto
    with m last_success_member [of p t ?as]
    obtain q t' where q: "last_success (key p) ?as = Some (q, t')" "key q = key p"
      "(q, Some t') \<in> set ?as"
      by blast
    from q(3) have "q \<in> set (selected os cf nfile gh w)"
      by (rule run_attempts_selected)
    moreover have "map_of (own (final_ledger os True cf nfile gh w)) (key p) =
               Some \<lparr>at = Some (toISOString os t'), notifiedAt = None, title = pr_title q,
                     other = []\<rparr>"
      by (simp add: final_ledger_map_of q(1) new_entry_def)
    ultimately show ?thesis
      using q(2) by blast
  qed
  have d: "\<not> paused (loadConfig cf) \<and> fetched cf gh \<noteq> [] \<longrightarrow>
         writes (out (main os True cf nfile gh w)) = [own (final_ledger os True cf nfile gh w)]"
    by (simp add: writes_main)
  have e: "(\<forall>u w'. execOpen os u w' = (True, w')) \<longrightarrow>
         final_ledger os True cf nfile gh w = final_ledger os False cf nfile gh w"
    unfolding final_ledger_def using open_loop_dry_as_real [of os] by blast
  from a b c d e show ?thesis
    by blast
qed

theorem dry_run_records_without_launch_witness:
  "launched (out (main (ex_os []) True None (Content ex_ledger) ex_gh 0)) = []
   \<and> attempted (out (main (ex_os []) True None (Content ex_ledger) ex_gh 0)) =
       [''https://github.com/o/r/pull/7'', ''https://github.com/o/r/pull/2'',
        ''https://github.com/o/r/pull/8'']
   \<and> run_attempts (ex_os []) True None (Content ex_ledger) ex_gh 0 =
       [(ex_pr 7 ''https://github.com/o/r/pull/7'' ''seven'', Some 864000002),
        (ex_pr 2 ''https://github.com/o/r/pull/2'' ''two'', Some 864000003),
        (ex_pr 8 ''https://github.com/o/r/pull/8'' ''eight'', Some 864000004)]
   \<and> writes (out (main (ex_os []) True None (Content ex_ledger) ex_gh 0)) =
       [own (final_ledger (ex_os []) False None (Content ex_ledger) ex_gh 0)]"
proof -
  have r: "run_attempts (ex_os []) True None (Content ex_ledger) ex_gh 0 =
       [(ex_pr 7 ''https://github.com/o/r/pull/7'' ''seven'', Some 864000002),
        (ex_pr 2 ''https://github.com/o/r/pull/2'' ''two'', Some 864000003),
        (ex_pr 8 ''https://github.com/o/r/pull/8'' ''eight'', Some 864000004)]"
    unfolding ex_run_attempts ex_selected
    by (simp add: ex_os_def readClock_def log_def)
  have ok: "\<forall>u w'. execOpen (ex_os []) u w' = (True, w')"
    by (simp add: ex_os_def)
  have ne: "fetched None ex_gh \<noteq> []"
    by (simp add: ex_fetched ex_prs_def)
  have u: "map url (selected (ex_os []) None (Content ex_ledger) ex_gh 0) =
       [''https://github.com/o/r/pull/7'', ''https://github.com/o/r/pull/2'',
        ''https://github.com/o/r/pull/8'']"
    by (simp add: ex_selected ex_pr_def)
  show ?thesis
    using dry_run_records_without_launch [where os = "ex_os []" and cf = None
        and nfile = "Content ex_ledger" and gh = ex_gh and w = 0] r ok ne
    by (simp add: ex_maxTabs u)
qed

text \<open>
  C9. A run that is not paused and whose fetch gives no PR, because \<^verbatim>\<open>gh\<close> failed or
  because it returned the empty list, writes the ledger file once, and what it writes is the
  pruned ledger computed at the start of the run; it launches nothing and notifies nothing.
\<close>

theorem empty_fetch_persists_pruned:
  assumes "\<not> paused (loadConfig cf)"
    and "gh (excludeDraft (loadConfig cf)) = None \<or> gh (excludeDraft (loadConfig cf)) = Some []"
  shows "writes (out (main os d cf nfile gh w)) = [own (pruned os cf nfile w)]
         \<and> launched (out (main os d cf nfile gh w)) = []
         \<and> notifications (out (main os d cf nfile gh w)) = []"
proof -
  from assms(2) have e: "fetched cf gh = []"
    by (auto simp add: fetched_def)
  then have "selected os cf nfile gh w = []"
    by (rule selected_fetched_empty)
  with e assms(1) show ?thesis
    by (simp add: writes_main launched_main notifications_main)
qed

theorem empty_fetch_persists_pruned_witness:
  "\<not> paused (loadConfig None)
   \<and> writes (out (main (ex_os []) False None (Content ex_ledger) (\<lambda>b. None) 0)) =
     [[(''o/r#1'', \<lparr>at = Some ''1970-01-10T00:00:00.000Z'', notifiedAt = None, title = ''one'',
                    other = []\<rparr>),
       (''o/r#3'', \<lparr>at = None, notifiedAt = Some ''1970-01-10T00:00:00.000Z'',
                    title = ''three'',
                    other = [(''updatedAt'', JStr ''1970-01-09T00:00:00.000Z'')]\<rparr>)]]"
proof -
  have a: "\<not> paused (loadConfig None)"
    by (simp add: loadConfig_def)
  have b: "(\<lambda>b. None) (excludeDraft (loadConfig None)) = None
           \<or> (\<lambda>b. None) (excludeDraft (loadConfig None)) = Some ([] :: pr list)"
    by simp
  show ?thesis
    using empty_fetch_persists_pruned [OF a b, of "ex_os []" False "Content ex_ledger" 0] a
    by (simp add: ex_pruned [OF ex_retention(1)])
qed

text \<open>
  C10. The filter looks at the pruned ledger, which the loop does not touch before the
  selection is made: every fetched PR whose key is not truthy in the pruned ledger passes
  it, however many fetched PRs share that key, and the selection is a slice of what
  passes; when the ledger file has no entry under the name \<^verbatim>\<open>__proto__\<close>, the keys that are
  not truthy are those that the pruned ledger lacks. \<^verbatim>\<open>openTab\<close> is called for every
  selected PR, so a real run launches the browser once for each occurrence. When two opens
  of PRs with one key succeed, the entry under that key after the loop is the one of the
  later open: of the last that succeeded.
\<close>

theorem duplicate_keys_opened_twice:
  "(\<forall>k. \<not> truthy_at (pruned os cf nfile w) k \<longrightarrow>
       filter (\<lambda>p. key p = k)
         (filter (\<lambda>p. \<not> truthy_at (pruned os cf nfile w) (key p)) (fetched cf gh)) =
       filter (\<lambda>p. key p = k) (fetched cf gh))
   \<and> (''__proto__'' \<notin> fst ` set (own (loadNotified nfile)) \<longrightarrow>
        (\<forall>k. map_of (own (pruned os cf nfile w)) k = None \<longrightarrow>
           filter (\<lambda>p. key p = k)
             (filter (\<lambda>p. \<not> truthy_at (pruned os cf nfile w) (key p)) (fetched cf gh)) =
           filter (\<lambda>p. key p = k) (fetched cf gh))
        \<and> filter (\<lambda>p. \<not> truthy_at (pruned os cf nfile w) (key p)) (fetched cf gh) =
            filter (\<lambda>p. map_of (own (pruned os cf nfile w)) (key p) = None) (fetched cf gh))
   \<and> selected os cf nfile gh w =
       slice (filter (\<lambda>p. \<not> truthy_at (pruned os cf nfile w) (key p)) (fetched cf gh)) 0
         (maxTabsToOpen (loadConfig cf))
   \<and> map fst (run_attempts os d cf nfile gh w) = selected os cf nfile gh w
   \<and> (\<not> paused (loadConfig cf) \<longrightarrow>
        attempted (out (main os d cf nfile gh w)) = map url (selected os cf nfile gh w)
        \<and> launched (out (main os False cf nfile gh w)) = map url (selected os cf nfile gh w))
   \<and> (\<forall>i j p q t1 t2.
         i < j \<and> j < length (run_attempts os d cf nfile gh w)
         \<and> run_attempts os d cf nfile gh w ! i = (p, Some t1)
         \<and> run_attempts os d cf nfile gh w ! j = (q, Some t2)
         \<and> key p = key q
         \<and> (\<forall>l. j < l \<and> l < length (run_attempts os d cf nfile gh w)
                \<and> key (fst (run_attempts os d cf nfile gh w ! l)) = key q
              \<longrightarrow> snd (run_attempts os d cf nfile gh w ! l) = None)
        \<longrightarrow> map_of (own (final_ledger os d cf nfile gh w)) (key p) =
              Some \<lparr>at = Some (toISOString os t2), notifiedAt = None, title = pr_title q,
                    other = []\<rparr>)"
proof -
  let ?as = "run_attempts os d cf nfile gh w"
  have a: "\<forall>k. \<not> truthy_at (pruned os cf nfile w) k \<longrightarrow>
       filter (\<lambda>p. key p = k)
         (filter (\<lambda>p. \<not> truthy_at (pruned os cf nfile w) (key p)) (fetched cf gh)) =
       filter (\<lambda>p. key p = k) (fetched cf gh)"
    using filter_key_passes by blast
  have a1: "\<forall>k. map_of (own (pruned os cf nfile w)) k = None \<longrightarrow>
           filter (\<lambda>p. key p = k)
             (filter (\<lambda>p. \<not> truthy_at (pruned os cf nfile w) (key p)) (fetched cf gh)) =
           filter (\<lambda>p. key p = k) (fetched cf gh)"
    if "''__proto__'' \<notin> fst ` set (own (loadNotified nfile))"
    using filter_key_absent [OF pruned_proto [OF that, of os cf w]] by blast
  have a2: "filter (\<lambda>p. \<not> truthy_at (pruned os cf nfile w) (key p)) (fetched cf gh) =
            filter (\<lambda>p. map_of (own (pruned os cf nfile w)) (key p) = None) (fetched cf gh)"
    if "''__proto__'' \<notin> fst ` set (own (loadNotified nfile))"
    by (simp add: truthy_at_pruned [OF that] map_of_eq_None_iff)
  have b: "selected os cf nfile gh w =
       slice (filter (\<lambda>p. \<not> truthy_at (pruned os cf nfile w) (key p)) (fetched cf gh)) 0
         (maxTabsToOpen (loadConfig cf))"
    by (simp add: selected_def newPRs_def)
  have c: "map fst ?as = selected os cf nfile gh w"
    by (simp add: run_attempts_def map_fst_attempts)
  have d: "\<not> paused (loadConfig cf) \<longrightarrow>
        attempted (out (main os d cf nfile gh w)) = map url (selected os cf nfile gh w)
        \<and> launched (out (main os False cf nfile gh w)) = map url (selected os cf nfile gh w)"
    by (simp add: launched_main attempted_main)
  have e: "map_of (own (final_ledger os d cf nfile gh w)) (key p) =
              Some \<lparr>at = Some (toISOString os t2), notifiedAt = None, title = pr_title q,
                    other = []\<rparr>"
    if "j < length ?as" and "?as ! j = (q, Some t2)" and "key p = key q"
      and "\<forall>l. j < l \<and> l < length ?as \<and> key (fst (?as ! l)) = key q \<longrightarrow> snd (?as ! l) = None"
    for j p q t2
  proof -
    from that(1,2,4) have "last_success (key q) ?as = Some (q, t2)"
      by (rule last_success_last)
    then show ?thesis
      using that(3) by (simp add: final_ledger_map_of new_entry_def)
  qed
  from a a1 a2 b c d e show ?thesis
    by blast
qed

theorem duplicate_keys_opened_twice_witness:
  "\<not> paused (loadConfig None)
   \<and> ''__proto__'' \<notin> fst ` set (own (loadNotified Missing))
   \<and> key (ex_pr 7 ''https://github.com/o/r/pull/7'' ''seven'') =
       key (ex_pr 7 ''https://github.com/o/r/pull/7'' ''seven, again'')
   \<and> run_attempts (ex_os []) False None Missing ex_twice 0 =
       [(ex_pr 7 ''https://github.com/o/r/pull/7'' ''seven'', Some 864000002),
        (ex_pr 7 ''https://github.com/o/r/pull/7'' ''seven, again'', Some 864000003)]
   \<and> launched (out (main (ex_os []) False None Missing ex_twice 0)) =
       [''https://github.com/o/r/pull/7'', ''https://github.com/o/r/pull/7'']
   \<and> map_of (own (final_ledger (ex_os []) False None Missing ex_twice 0)) ''o/r#7'' =
       Some \<lparr>at = Some ''1970-01-11T00:00:00.003Z'', notifiedAt = None,
             title = ''seven, again'', other = []\<rparr>"
proof -
  let ?p = "ex_pr 7 ''https://github.com/o/r/pull/7'' ''seven''"
  let ?q = "ex_pr 7 ''https://github.com/o/r/pull/7'' ''seven, again''"
  have a: "\<not> paused (loadConfig None)"
    by (simp add: ex_maxTabs)
  have h: "''__proto__'' \<notin> fst ` set (own (loadNotified Missing))"
    by (simp add: loadNotified_def)
  have r: "run_attempts (ex_os []) False None Missing ex_twice 0 =
       [(?p, Some 864000002), (?q, Some 864000003)]"
    unfolding ex_run_attempts ex_twice_selected
    by (simp add: openTab_def ex_os_def ex_pr_def readClock_def log_def)
  have iso: "toISOString (ex_os []) 864000003 = ''1970-01-11T00:00:00.003Z''"
    by (simp add: ex_os_def string_of_nat_digit)
  have t: "pr_title ?q = ''seven, again''" "url ?p = ''https://github.com/o/r/pull/7''"
    "url ?q = ''https://github.com/o/r/pull/7''"
    by (simp_all add: ex_pr_def)
  note T = duplicate_keys_opened_twice [where os = "ex_os []" and d = False and cf = None
      and nfile = Missing and gh = ex_twice and w = 0]
  from T have l: "launched (out (main (ex_os []) False None Missing ex_twice 0)) =
       [''https://github.com/o/r/pull/7'', ''https://github.com/o/r/pull/7'']"
    using a by (simp add: ex_twice_selected t)
  from T have "(0::nat) < 1 \<and> 1 < length (run_attempts (ex_os []) False None Missing ex_twice 0)
         \<and> run_attempts (ex_os []) False None Missing ex_twice 0 ! 0 = (?p, Some 864000002)
         \<and> run_attempts (ex_os []) False None Missing ex_twice 0 ! 1 = (?q, Some 864000003)
         \<and> key ?p = key ?q
         \<and> (\<forall>l. 1 < l \<and> l < length (run_attempts (ex_os []) False None Missing ex_twice 0)
                \<and> key (fst (run_attempts (ex_os []) False None Missing ex_twice 0 ! l)) = key ?q
              \<longrightarrow> snd (run_attempts (ex_os []) False None Missing ex_twice 0 ! l) = None)
        \<longrightarrow> map_of (own (final_ledger (ex_os []) False None Missing ex_twice 0)) (key ?p) =
              Some \<lparr>at = Some (toISOString (ex_os []) 864000003), notifiedAt = None,
                    title = pr_title ?q, other = []\<rparr>"
    by blast
  then have m: "map_of (own (final_ledger (ex_os []) False None Missing ex_twice 0)) ''o/r#7'' =
       Some \<lparr>at = Some ''1970-01-11T00:00:00.003Z'', notifiedAt = None,
             title = ''seven, again'', other = []\<rparr>"
    unfolding r by (simp add: ex_keys iso t)
  show ?thesis
    using a h r l m by (simp add: ex_keys)
qed

end
